theory Spec2Isabelle
  imports Main "HOL-Library.Sublist" "HOL-Library.Multiset" "HOL-Library.Char_ord"
    "HOL-Library.List_Lexorder" "HOL-Library.Product_Lexorder"
begin

section \<open>Data model\<close>

text \<open>
  The \<open>date\<close> field of a donation is declared \<open>any\<close> in \<open>src/types/index.ts\<close>
  (comment: Firestore Timestamp). The values the code can meet are the store's
  timestamp object, a missing value (\<open>null\<close>/\<open>undefined\<close>), a plain string or a
  plain number. A store timestamp is finer than the JavaScript \<open>Date\<close> its \<open>toDate()\<close>
  method returns: it is modelled as the millisecond instant that \<open>toDate()\<close> exposes
  together with the sub-millisecond remainder that \<open>toDate()\<close> drops.
\<close>

datatype js_value =
    Null
  | Timestamp (millis: int) (submilli: nat)
  | Str string
  | Num int

subsection \<open>JavaScript numbers\<close>

text \<open>
  An amount is a JavaScript \<open>number\<close>, an IEEE 754 double. The forms write the amount
  as the result of \<open>parseInt\<close>, which is a whole number, \<open>NaN\<close> or an infinity; the
  model has these values and no fractional ones. \<open>Number n\<close> stands for the double
  whose value is the integer \<open>n\<close>; negative zero is not told apart from zero.

  A double holds every integer up to \<open>2 ^ 53\<close> in magnitude. A larger integer is
  rounded to 53 significant bits, to the nearest such value and to an even significand
  when two are equally near; a result of magnitude \<open>2 ^ 1024\<close> or more is an infinity.
  \<open>to_double i\<close> is the double that the exact integer \<open>i\<close> becomes.
\<close>

datatype js_number = NaN | PosInfinity | NegInfinity | Number int

function bit_length :: "int \<Rightarrow> nat" where
  "bit_length n = (if n \<le> 0 then 0 else Suc (bit_length (n div 2)))"
  by pat_completeness auto
termination by (relation "measure nat") auto

declare bit_length.simps [simp del]

definition round_magnitude :: "int \<Rightarrow> int" where
  "round_magnitude n =
     (if n < 2 ^ 53 then n
      else (let e = bit_length n - 53;
                q = n div 2 ^ e;
                r = n mod 2 ^ e;
                half = 2 ^ (e - 1)
            in if half < r \<or> (r = half \<and> odd q) then (q + 1) * 2 ^ e else q * 2 ^ e))"

definition to_double :: "int \<Rightarrow> js_number" where
  "to_double i =
     (let m = round_magnitude \<bar>i\<bar>
      in if 1024 < bit_length m then (if i < 0 then NegInfinity else PosInfinity)
         else Number (if i < 0 then - m else m))"

text \<open>
  \<open>x + y\<close> and \<open>x - y\<close> on numbers: the exact result, rounded; \<open>NaN\<close> absorbs, and so
  does an infinity, except that opposite infinities add to \<open>NaN\<close>.
\<close>

fun js_neg :: "js_number \<Rightarrow> js_number" where
  "js_neg NaN = NaN"
| "js_neg PosInfinity = NegInfinity"
| "js_neg NegInfinity = PosInfinity"
| "js_neg (Number n) = Number (- n)"

fun js_add :: "js_number \<Rightarrow> js_number \<Rightarrow> js_number" where
  "js_add (Number a) (Number b) = to_double (a + b)"
| "js_add NaN y = NaN"
| "js_add x NaN = NaN"
| "js_add PosInfinity NegInfinity = NaN"
| "js_add NegInfinity PosInfinity = NaN"
| "js_add PosInfinity y = PosInfinity"
| "js_add NegInfinity y = NegInfinity"
| "js_add (Number a) y = y"

definition js_sub :: "js_number \<Rightarrow> js_number \<Rightarrow> js_number" where
  "js_sub x y = js_add x (js_neg y)"

fun is_negative :: "js_number \<Rightarrow> bool" where
  "is_negative NaN = False"
| "is_negative PosInfinity = False"
| "is_negative NegInfinity = True"
| "is_negative (Number n) = (n < 0)"

subsection \<open>Donations and donor summaries\<close>

text \<open>
  \<open>donationCount\<close> is incremented once per element of an array; an array has fewer
  than \<open>2 ^ 32\<close> elements, so the count is always exact: a natural number in the model.
\<close>

record Donation =
  doc_id :: string
  donor :: string
  amount :: js_number
  date :: js_value

record DonorSummary =
  name :: string
  totalAmount :: js_number
  lastDonation :: js_value
  donationCount :: nat

datatype error = TypeError | BackendUnavailable

text \<open>JavaScript truthiness, as used by \<open>!x\<close> and \<open>x && y\<close>.\<close>

fun truthy :: "js_value \<Rightarrow> bool" where
  "truthy Null = False"
| "truthy (Timestamp ms sub) = True"
| "truthy (Str s) = (s \<noteq> [])"
| "truthy (Num n) = (n \<noteq> 0)"

text \<open>
  \<open>v.toDate()\<close>: only the store's timestamp object has the method; on a string or a
  number the property is \<open>undefined\<close> and the call raises a TypeError.
\<close>

fun toDate :: "js_value \<Rightarrow> error + int" where
  "toDate (Timestamp ms sub) = Inr ms"
| "toDate v = Inl TypeError"

section \<open>Donor aggregation (\<open>processDonations\<close>, src/app/donors/page.tsx)\<close>

text \<open>
  A JavaScript \<open>Map\<close> iterates in insertion order and \<open>set\<close> on a present key keeps
  the key's position: an association list with update in place.
\<close>

type_synonym DonorMap = "(string \<times> DonorSummary) list"

fun map_get :: "DonorMap \<Rightarrow> string \<Rightarrow> DonorSummary option" where
  "map_get [] k = None"
| "map_get ((k', v) # m) k = (if k' = k then Some v else map_get m k)"

fun map_set :: "DonorMap \<Rightarrow> string \<Rightarrow> DonorSummary \<Rightarrow> DonorMap" where
  "map_set [] k v = [(k, v)]"
| "map_set ((k', v') # m) k v =
     (if k' = k then (k, v) # m else (k', v') # map_set m k v)"

definition map_values :: "DonorMap \<Rightarrow> DonorSummary list" where
  "map_values m = map snd m"

text \<open>
  The condition of lines 71-73:
  \<open>!existing.lastDonation || (donation.date && existing.lastDonation &&
     donation.date.toDate() > existing.lastDonation.toDate())\<close>,
  evaluated left to right with short-circuiting.
\<close>

definition should_update :: "js_value \<Rightarrow> js_value \<Rightarrow> error + bool" where
  "should_update existing_last donation_date =
     (if \<not> truthy existing_last then Inr True
      else if \<not> truthy donation_date then Inr False
      else (case toDate donation_date of
              Inl e \<Rightarrow> Inl e
            | Inr a \<Rightarrow> (case toDate existing_last of
                         Inl e \<Rightarrow> Inl e
                       | Inr b \<Rightarrow> Inr (a > b))))"

definition new_summary :: "string \<Rightarrow> DonorSummary" where
  "new_summary n = \<lparr>name = n, totalAmount = Number 0, lastDonation = Null, donationCount = 0\<rparr>"

text \<open>The body of the \<open>forEach\<close> callback, lines 61-77.\<close>

definition process_one :: "DonorMap \<Rightarrow> Donation \<Rightarrow> error + DonorMap" where
  "process_one m d =
     (let existing = (case map_get m (donor d) of
                        Some s \<Rightarrow> s
                      | None \<Rightarrow> new_summary (donor d));
          existing1 = existing\<lparr>totalAmount := js_add (totalAmount existing) (amount d),
                               donationCount := donationCount existing + 1\<rparr>
      in case should_update (lastDonation existing1) (date d) of
           Inl e \<Rightarrow> Inl e
         | Inr b \<Rightarrow> Inr (map_set m (donor d)
                      (if b then existing1\<lparr>lastDonation := date d\<rparr> else existing1)))"

fun forEach_donation :: "Donation list \<Rightarrow> DonorMap \<Rightarrow> error + DonorMap" where
  "forEach_donation [] m = Inr m"
| "forEach_donation (d # ds) m =
     (case process_one m d of Inl e \<Rightarrow> Inl e | Inr m' \<Rightarrow> forEach_donation ds m')"

text \<open>
  \<open>Array.prototype.sort\<close> with a comparator is a stable sort: \<open>a\<close> stays before \<open>b\<close>
  unless the comparator is positive; a comparator result \<open>NaN\<close> counts as zero. Stable
  insertion sort, generic in the "not after" relation. (When the comparator is not a
  consistent order, as with \<open>NaN\<close> totals, the language leaves the resulting order to
  the implementation; the model then gives the order of this insertion sort.)
\<close>

fun not_positive :: "js_number \<Rightarrow> bool" where
  "not_positive NaN = True"
| "not_positive PosInfinity = False"
| "not_positive NegInfinity = True"
| "not_positive (Number n) = (n \<le> 0)"

fun insort_by :: "('a \<Rightarrow> 'a \<Rightarrow> bool) \<Rightarrow> 'a \<Rightarrow> 'a list \<Rightarrow> 'a list" where
  "insort_by le x [] = [x]"
| "insort_by le x (y # ys) = (if le x y then x # y # ys else y # insort_by le x ys)"

definition sort_by :: "('a \<Rightarrow> 'a \<Rightarrow> bool) \<Rightarrow> 'a list \<Rightarrow> 'a list" where
  "sort_by le xs = foldr (insort_by le) xs []"

definition js_sort :: "('a \<Rightarrow> 'a \<Rightarrow> js_number) \<Rightarrow> 'a list \<Rightarrow> 'a list" where
  "js_sort cmp xs = sort_by (\<lambda>a b. not_positive (cmp a b)) xs"

definition processDonations :: "Donation list \<Rightarrow> error + DonorSummary list" where
  "processDonations donations =
     (case forEach_donation donations [] of
        Inl e \<Rightarrow> Inl e
      | Inr donorMap \<Rightarrow>
          Inr (js_sort (\<lambda>a b. js_sub (totalAmount b) (totalAmount a)) (map_values donorMap)))"

subsection \<open>Reference notions for the aggregation\<close>

text \<open>
  What the summary of one donor is compared with: the donor's donations in input
  order, the exact integer sum of their amounts, and their latest date. \<open>toDate()\<close>
  returns the millisecond instant of a timestamp, so two timestamps within one
  millisecond have the same instant: \<open>latest_date\<close> is the property of being a date of
  the donor with the latest instant, and \<open>first_latest\<close> is the first such date in input
  order.
\<close>

fun is_integer :: "js_number \<Rightarrow> bool" where
  "is_integer (Number n) = True"
| "is_integer v = False"

fun integer_of :: "js_number \<Rightarrow> int" where
  "integer_of (Number n) = n"
| "integer_of v = 0"

fun is_timestamp :: "js_value \<Rightarrow> bool" where
  "is_timestamp (Timestamp ms sub) = True"
| "is_timestamp v = False"

definition donations_of :: "string \<Rightarrow> Donation list \<Rightarrow> Donation list" where
  "donations_of n ds = filter (\<lambda>d. donor d = n) ds"

text \<open>The distinct donor names in the order in which they are first seen.\<close>

fun first_seen :: "string list \<Rightarrow> string list" where
  "first_seen [] = []"
| "first_seen (x # xs) = x # filter (\<lambda>y. y \<noteq> x) (first_seen xs)"

definition date_ok :: "js_value \<Rightarrow> bool" where
  "date_ok v = (v = Null \<or> is_timestamp v)"

fun first_latest :: "Donation list \<Rightarrow> js_value" where
  "first_latest [] = Null"
| "first_latest (d # ds) =
     (if date d \<noteq> Null \<and>
         (first_latest ds = Null \<or> millis (first_latest ds) \<le> millis (date d))
      then date d else first_latest ds)"

definition latest_date :: "Donation list \<Rightarrow> js_value \<Rightarrow> bool" where
  "latest_date ds v =
     (if list_all (\<lambda>d. date d = Null) ds then v = Null
      else is_timestamp v \<and> v \<in> set (map date ds) \<and>
           list_all (\<lambda>d. date d = Null \<or> millis (date d) \<le> millis v) ds)"

text \<open>
  One donor's accumulator after one more of the donor's donations, for dates that are
  timestamps or missing.
\<close>

definition acc_step :: "DonorSummary \<Rightarrow> Donation \<Rightarrow> DonorSummary" where
  "acc_step s d =
     s\<lparr>totalAmount := js_add (totalAmount s) (amount d),
       donationCount := donationCount s + 1,
       lastDonation :=
         (if lastDonation s = Null \<or>
             (date d \<noteq> Null \<and> millis (date d) > millis (lastDonation s))
          then date d else lastDonation s)\<rparr>"

definition map_ok :: "DonorMap \<Rightarrow> bool" where
  "map_ok m = (distinct (map fst m) \<and>
     list_all (\<lambda>(k, s). name s = k \<and> date_ok (lastDonation s)) m)"

definition get_or_new :: "DonorMap \<Rightarrow> string \<Rightarrow> DonorSummary" where
  "get_or_new m n = (case map_get m n of Some s \<Rightarrow> s | None \<Rightarrow> new_summary n)"

section \<open>The document store\<close>

text \<open>
  The pages read the \<open>donations\<close> collection through the store's query interface
  (\<open>query\<close>, \<open>where\<close>, \<open>orderBy\<close>, \<open>startAfter\<close>, \<open>limit\<close>, \<open>getDocs\<close>). The store
  is not part of the repository; the model below follows its documented behaviour for
  the constraints the pages use:
  \<^item> values of different types are ordered null, number, timestamp, string; strings
    are compared lexicographically by their UTF-8 bytes (the \<open>string\<close> order used here),
    timestamps at their full resolution;
  \<^item> results are ordered by the \<open>orderBy\<close> fields and then by document name, in the
    direction of the last \<open>orderBy\<close> (ascending when there is none);
  \<^item> \<open>startAfter(snapshot)\<close> keeps the documents strictly after the snapshot in that
    order; \<open>limit(n)\<close> keeps the first \<open>n\<close>.
  Every document of the collection has the fields \<open>donor\<close> and \<open>date\<close> (the forms
  always write them); a \<open>date\<close> may hold the null value. A collection is the list of
  its documents; an unreachable store makes \<open>getDocs\<close> fail.
\<close>

fun value_key :: "js_value \<Rightarrow> nat \<times> int \<times> nat \<times> string" where
  "value_key Null = (0, 0, 0, [])"
| "value_key (Num n) = (1, n, 0, [])"
| "value_key (Timestamp ms sub) = (2, ms, sub, [])"
| "value_key (Str s) = (3, 0, 0, s)"

definition value_less :: "js_value \<Rightarrow> js_value \<Rightarrow> bool" where
  "value_less a b = (value_key a < value_key b)"

datatype field = F_donor | F_date | F_name

fun field_value :: "field \<Rightarrow> Donation \<Rightarrow> js_value" where
  "field_value F_donor d = Str (donor d)"
| "field_value F_date d = date d"
| "field_value F_name d = Str (doc_id d)"

datatype direction = Asc | Desc

datatype where_op = Ge | Le

datatype constraint =
    Where field where_op js_value
  | OrderBy field direction
  | StartAfter Donation
  | Limit nat

type_synonym query = "constraint list"

fun holds :: "where_op \<Rightarrow> js_value \<Rightarrow> js_value \<Rightarrow> bool" where
  "holds Ge v w = (\<not> value_less v w)"
| "holds Le v w = (\<not> value_less w v)"

fun wheres :: "query \<Rightarrow> (field \<times> where_op \<times> js_value) list" where
  "wheres [] = []"
| "wheres (Where f op v # q) = (f, op, v) # wheres q"
| "wheres (c # q) = wheres q"

fun order_bys :: "query \<Rightarrow> (field \<times> direction) list" where
  "order_bys [] = []"
| "order_bys (OrderBy f dir # q) = (f, dir) # order_bys q"
| "order_bys (c # q) = order_bys q"

fun cursor_of :: "query \<Rightarrow> Donation option" where
  "cursor_of [] = None"
| "cursor_of (StartAfter c # q) = Some c"
| "cursor_of (c # q) = cursor_of q"

fun limit_of :: "query \<Rightarrow> nat option" where
  "limit_of [] = None"
| "limit_of (Limit n # q) = Some n"
| "limit_of (c # q) = limit_of q"

text \<open>The explicit order followed by the implicit order on the document name.\<close>

definition order_of :: "query \<Rightarrow> (field \<times> direction) list" where
  "order_of q =
     (let os = order_bys q
      in os @ [(F_name, if os = [] then Asc else snd (last os))])"

fun ordered_before :: "(field \<times> direction) list \<Rightarrow> Donation \<Rightarrow> Donation \<Rightarrow> bool" where
  "ordered_before [] a b = False"
| "ordered_before ((f, dir) # os) a b =
     (if field_value f a = field_value f b then ordered_before os a b
      else (case dir of
              Asc \<Rightarrow> value_less (field_value f a) (field_value f b)
            | Desc \<Rightarrow> value_less (field_value f b) (field_value f a)))"

definition matches :: "query \<Rightarrow> Donation \<Rightarrow> bool" where
  "matches q d = list_all (\<lambda>(f, op, v). holds op (field_value f d) v) (wheres q)"

definition store_sort :: "(field \<times> direction) list \<Rightarrow> Donation list \<Rightarrow> Donation list" where
  "store_sort ord docs = sort_by (\<lambda>a b. \<not> ordered_before ord b a) docs"

definition run_query :: "query \<Rightarrow> Donation list \<Rightarrow> Donation list" where
  "run_query q docs =
     (let ord = order_of q;
          sorted = store_sort ord (filter (matches q) docs);
          after = (case cursor_of q of
                     None \<Rightarrow> sorted
                   | Some c \<Rightarrow> filter (\<lambda>d. ordered_before ord c d) sorted)
      in case limit_of q of None \<Rightarrow> after | Some n \<Rightarrow> take n after)"

datatype backend = Unreachable | Collection "Donation list"

definition getDocs :: "backend \<Rightarrow> query \<Rightarrow> error + Donation list" where
  "getDocs db q =
     (case db of
        Unreachable \<Rightarrow> Inl BackendUnavailable
      | Collection docs \<Rightarrow> Inr (run_query q docs))"

section \<open>Paginated fetch (\<open>fetchDonors\<close>, src/app/donors/page.tsx)\<close>

text \<open>
  The component state of \<open>DonorsPage\<close>. \<open>fetchDonors\<close> reads \<open>searchTerm\<close>,
  \<open>lastVisible\<close> and \<open>allDonations\<close> and writes through the setters; the model takes
  the state and returns the state after the call has completed. \<open>fetchExpenses\<close>
  (src/app/expenses/page.tsx) and \<open>fetchDonations\<close> build the same three queries on
  their collections, with \<open>description\<close> in place of \<open>donor\<close> for expenses, and do
  not aggregate.
\<close>

record PageState =
  donors :: "DonorSummary list"
  loading :: bool
  error :: "string option"
  searchTerm :: string
  currentPage :: nat
  hasMore :: bool
  lastVisible :: "Donation option"
  isSearching :: bool
  allDonations :: "Donation list"

definition ITEMS_PER_PAGE :: nat where
  "ITEMS_PER_PAGE = 10"

text \<open>The character U+F8FF, as its three UTF-8 bytes.\<close>

definition uf8ff :: string where
  "uf8ff = [CHR 0xEF, CHR 0xA3, CHR 0xBF]"

definition initial_state :: PageState where
  "initial_state =
     \<lparr>donors = [], loading = True, error = None, searchTerm = [], currentPage = 1,
      hasMore = True, lastVisible = None, isSearching = False, allDonations = []\<rparr>"

text \<open>Lines 89-109: the query, chosen from \<open>searchTerm\<close>, \<open>isNewSearch\<close> and \<open>lastVisible\<close>.\<close>

definition build_query :: "PageState \<Rightarrow> bool \<Rightarrow> query" where
  "build_query st isNewSearch =
     (if searchTerm st \<noteq> [] then
        [Where F_donor Ge (Str (searchTerm st)),
         Where F_donor Le (Str (searchTerm st @ uf8ff)),
         OrderBy F_donor Asc,
         OrderBy F_date Desc,
         Limit ITEMS_PER_PAGE]
      else (case lastVisible st of
              None \<Rightarrow> [OrderBy F_date Desc, Limit ITEMS_PER_PAGE]
            | Some c \<Rightarrow>
                if isNewSearch then [OrderBy F_date Desc, Limit ITEMS_PER_PAGE]
                else [OrderBy F_date Desc, StartAfter c, Limit ITEMS_PER_PAGE]))"

definition last_doc :: "Donation list \<Rightarrow> Donation option" where
  "last_doc docs = (if docs = [] then None else Some (last docs))"

text \<open>
  Lines 84-133. A failure of \<open>getDocs\<close> leaves the lists untouched; a failure of the
  aggregation happens after the setters for \<open>allDonations\<close>, \<open>lastVisible\<close> and
  \<open>hasMore\<close> have been called. Both end in the \<open>catch\<close> block.
\<close>

definition fetchDonors :: "backend \<Rightarrow> bool \<Rightarrow> PageState \<Rightarrow> PageState" where
  "fetchDonors db isNewSearch st =
     (case getDocs db (build_query st isNewSearch) of
        Inl e \<Rightarrow>
          st\<lparr>error := Some ''Failed to load donors. Please try again later.'',
             loading := False\<rparr>
      | Inr docs \<Rightarrow>
          (let st1 = st\<lparr>allDonations := (if isNewSearch then docs else allDonations st @ docs),
                        lastVisible := last_doc docs,
                        hasMore := (length docs = ITEMS_PER_PAGE)\<rparr>
           in case processDonations (if isNewSearch then docs else allDonations st @ docs) of
                Inl e \<Rightarrow>
                  st1\<lparr>error := Some ''Failed to load donors. Please try again later.'',
                      loading := False\<rparr>
              | Inr donorList \<Rightarrow>
                  st1\<lparr>donors := donorList, error := None, loading := False\<rparr>))"

definition handleSearch :: "backend \<Rightarrow> PageState \<Rightarrow> PageState" where
  "handleSearch db st = fetchDonors db True (st\<lparr>isSearching := True, currentPage := 1\<rparr>)"

definition loadMore :: "backend \<Rightarrow> PageState \<Rightarrow> PageState" where
  "loadMore db st =
     (if \<not> loading st \<and> hasMore st
      then fetchDonors db False (st\<lparr>currentPage := currentPage st + 1\<rparr>)
      else st)"

text \<open>
  "Load more" pressed until \<open>hasMore\<close> is false. The loop need not end, so it takes
  fuel: \<open>None\<close> means that \<open>hasMore\<close> was still true when the fuel ran out.
\<close>

fun load_all :: "nat \<Rightarrow> backend \<Rightarrow> PageState \<Rightarrow> PageState option" where
  "load_all 0 db st = (if hasMore st then None else Some st)"
| "load_all (Suc k) db st = (if hasMore st then load_all k db (loadMore db st) else Some st)"

text \<open>The two orders the queries ask for, written out.\<close>

definition default_order :: "(field \<times> direction) list" where
  "default_order = [(F_date, Desc), (F_name, Desc)]"

definition search_order :: "(field \<times> direction) list" where
  "search_order = [(F_donor, Asc), (F_date, Desc), (F_name, Desc)]"

text \<open>
  The state of a Default-mode pagination over the ordered collection \<open>S\<close>: the
  records loaded so far followed by the records \<open>R\<close> still to come make up \<open>S\<close>, and
  while \<open>hasMore\<close> holds the cursor is the last record loaded. The collection is the
  same in every call of one pagination.
\<close>

definition default_inv :: "Donation list \<Rightarrow> PageState \<Rightarrow> Donation list \<Rightarrow> bool" where
  "default_inv S st R =
     (searchTerm st = [] \<and> \<not> loading st \<and> S = allDonations st @ R \<and>
      (hasMore st \<longrightarrow> allDonations st \<noteq> [] \<and> lastVisible st = Some (last (allDonations st))) \<and>
      (\<not> hasMore st \<longrightarrow> R = []))"

text \<open>The page a search for \<open>t\<close> returns, as the search query computes it.\<close>

definition search_page :: "string \<Rightarrow> Donation list \<Rightarrow> Donation list" where
  "search_page t docs =
     take ITEMS_PER_PAGE (store_sort search_order
       (filter (\<lambda>d. \<not> donor d < t \<and> \<not> t @ uf8ff < donor d) docs))"

text \<open>Example data: ten donations of one donor, and a search for that donor.\<close>

definition donation_A :: "string \<Rightarrow> int \<Rightarrow> Donation" where
  "donation_A i t = \<lparr>doc_id = i, donor = ''A'', amount = Number 50, date = Timestamp t 0\<rparr>"

definition ten_donations :: "Donation list" where
  "ten_donations =
     [donation_A ''d0'' 1000, donation_A ''d1'' 1001, donation_A ''d2'' 1002,
      donation_A ''d3'' 1003, donation_A ''d4'' 1004, donation_A ''d5'' 1005,
      donation_A ''d6'' 1006, donation_A ''d7'' 1007, donation_A ''d8'' 1008,
      donation_A ''d9'' 1009]"

definition searching_A :: PageState where
  "searching_A = initial_state\<lparr>searchTerm := ''A'', loading := False\<rparr>"

text \<open>
  The first page has been loaded in Default mode; the user then types A into the
  search box (\<open>setSearchTerm\<close>) without submitting the search.
\<close>

definition typed_search_state :: PageState where
  "typed_search_state =
     (fetchDonors (Collection ten_donations) True initial_state)\<lparr>searchTerm := ''A''\<rparr>"

section \<open>Content sync (\<open>syncWordPressData\<close>, app/utils/wordpress-sync)\<close>

text \<open>
  The post as the content API returns it and the document the sync stores for it.
  The \<open>wordpress_posts\<close> collection is a list of documents with their ids; \<open>addDoc\<close>
  creates a document under a fresh id, taken from a counter.
\<close>

record WordPressPost =
  post_id :: int
  post_title :: string
  post_content :: string
  post_date :: string
  post_modified :: string
  post_slug :: string

record PostData =
  wp_id :: int
  title :: string
  content :: string
  published :: string
  last_modified :: string
  slug :: string
  synced_at :: string

record PostStore =
  next_doc :: nat
  post_docs :: "(nat \<times> PostData) list"

datatype SyncResult = SyncSuccess nat | SyncFailure string

text \<open>\<open>query(postsRef, where('wp_id', '==', id))\<close>: the matching documents in id order.\<close>

definition where_wp_id :: "int \<Rightarrow> PostStore \<Rightarrow> (nat \<times> PostData) list" where
  "where_wp_id p st = sort_key fst (filter (\<lambda>(i, d). wp_id d = p) (post_docs st))"

definition addDoc :: "PostData \<Rightarrow> PostStore \<Rightarrow> PostStore" where
  "addDoc d st = st\<lparr>next_doc := next_doc st + 1, post_docs := post_docs st @ [(next_doc st, d)]\<rparr>"

definition updateDoc :: "nat \<Rightarrow> PostData \<Rightarrow> PostStore \<Rightarrow> PostStore" where
  "updateDoc i d st =
     st\<lparr>post_docs := map (\<lambda>(j, old). if j = i then (j, d) else (j, old)) (post_docs st)\<rparr>"

definition postData :: "string \<Rightarrow> WordPressPost \<Rightarrow> PostData" where
  "postData now post =
     \<lparr>wp_id = post_id post, title = post_title post, content = post_content post,
      published = post_date post, last_modified = post_modified post, slug = post_slug post,
      synced_at = now\<rparr>"

text \<open>The body of the \<open>for\<close> loop, lines 23-49 of the sync function.\<close>

definition sync_post :: "string \<Rightarrow> WordPressPost \<Rightarrow> PostStore \<Rightarrow> PostStore" where
  "sync_post now post st =
     (case where_wp_id (post_id post) st of
        [] \<Rightarrow> addDoc (postData now post) st
      | (i, old) # rest \<Rightarrow> updateDoc i (postData now post) st)"

text \<open>
  \<open>new Date()\<close> is read once per post: \<open>clock k\<close> is the time read in iteration \<open>k\<close>.
\<close>

fun sync_posts :: "(nat \<Rightarrow> string) \<Rightarrow> nat \<Rightarrow> WordPressPost list \<Rightarrow> PostStore \<Rightarrow> PostStore" where
  "sync_posts clock k [] st = st"
| "sync_posts clock k (post # posts) st =
     sync_posts clock (Suc k) posts (sync_post (clock k) post st)"

text \<open>
  The response of the content API is the list of posts, or nothing when the request
  or the decoding of its body fails; the failure is caught and reported.
  \<open>SyncSuccess n\<close> stands for the result with the message "Synced n posts
  successfully". Writes to the collection are taken to succeed.
\<close>

definition syncWordPressData ::
  "WordPressPost list option \<Rightarrow> (nat \<Rightarrow> string) \<Rightarrow> PostStore \<Rightarrow> SyncResult \<times> PostStore" where
  "syncWordPressData response clock st =
     (case response of
        None \<Rightarrow> (SyncFailure ''Failed to sync WordPress data'', st)
      | Some posts \<Rightarrow> (SyncSuccess (length posts), sync_posts clock 0 posts st))"

definition docs_for :: "int \<Rightarrow> PostStore \<Rightarrow> (nat \<times> PostData) list" where
  "docs_for p st = filter (\<lambda>(i, d). wp_id d = p) (post_docs st)"

definition store_ok :: "PostStore \<Rightarrow> bool" where
  "store_ok st = (distinct (map fst (post_docs st)) \<and>
                  list_all (\<lambda>(i, d). i < next_doc st) (post_docs st))"

text \<open>Example data: one post.\<close>

definition post7 :: WordPressPost where
  "post7 = \<lparr>post_id = 7, post_title = ''Hello'', post_content = ''<p>Hi</p>'',
            post_date = ''2024-01-01T00:00:00'', post_modified = ''2024-01-02T00:00:00'',
            post_slug = ''hello''\<rparr>"

section \<open>Donation form (\<open>DonationForm\<close>, components/DonationForm)\<close>

text \<open>
  The form state holds the text of each input. The amount input is declared
  \<open>type="number" required min="1"\<close>; the donor input and the purpose select are
  \<open>required\<close>. The form has no \<open>noValidate\<close>, so the submit event, and with it
  \<open>handleSubmit\<close>, is only dispatched when the browser's constraint validation of these
  attributes succeeds.
\<close>

record FormData =
  form_donor :: string
  form_amount :: string
  form_purpose :: string
  form_notes :: string

definition is_digit :: "char \<Rightarrow> bool" where
  "is_digit c = (CHR ''0'' \<le> c \<and> c \<le> CHR ''9'')"

definition is_space :: "char \<Rightarrow> bool" where
  "is_space c = (c = CHR '' '' \<or> (CHR 0x09 \<le> c \<and> c \<le> CHR 0x0D))"

definition digits_value :: "string \<Rightarrow> int" where
  "digits_value ds = foldl (\<lambda>a c. 10 * a + (of_char c - 48)) 0 ds"

definition is_hex_digit :: "char \<Rightarrow> bool" where
  "is_hex_digit c = (is_digit c \<or> (CHR ''a'' \<le> c \<and> c \<le> CHR ''f'') \<or> (CHR ''A'' \<le> c \<and> c \<le> CHR ''F''))"

definition hex_digit_value :: "char \<Rightarrow> int" where
  "hex_digit_value c =
     (if is_digit c then of_char c - 48
      else if CHR ''a'' \<le> c then of_char c - 87
      else of_char c - 55)"

definition hex_value :: "string \<Rightarrow> int" where
  "hex_value ds = foldl (\<lambda>a c. 16 * a + hex_digit_value c) 0 ds"

text \<open>
  \<open>parseInt(text)\<close> without a radix: leading white space is skipped (ASCII white space
  here), then an optional sign, then hexadecimal digits after a \<open>0x\<close> prefix or else
  decimal digits; the longest run of digits counts and the rest of the text is ignored;
  no digit gives \<open>NaN\<close>. The result is a double: the integer the digits denote, rounded
  by \<open>to_double\<close>. (For more than 20 decimal digits the language lets an implementation
  round a nearby value instead; the model rounds the exact one.)
\<close>

definition parseInt :: "string \<Rightarrow> js_number" where
  "parseInt s =
     (let s1 = dropWhile is_space s;
          neg = (s1 \<noteq> [] \<and> hd s1 = CHR ''-'');
          s2 = (if s1 \<noteq> [] \<and> (hd s1 = CHR ''-'' \<or> hd s1 = CHR ''+'') then tl s1 else s1);
          hex = (length s2 \<ge> 2 \<and> hd s2 = CHR ''0'' \<and> (hd (tl s2) = CHR ''x'' \<or> hd (tl s2) = CHR ''X''));
          ds = (if hex then takeWhile is_hex_digit (drop 2 s2) else takeWhile is_digit s2);
          v = (if hex then hex_value ds else digits_value ds)
      in if ds = [] then NaN else to_double (if neg then - v else v))"

record DonationData =
  data_donor :: string
  data_amount :: js_number
  data_purpose :: string
  data_notes :: "string option"

text \<open>
  \<open>handleSubmit\<close> builds \<open>donationData\<close> from the form state and issues one store
  write: \<open>updateDoc\<close> on the edited donation, or \<open>addDoc\<close> (which adds the server
  timestamp as \<open>date\<close>). The model returns that write.
\<close>

datatype write_op = UpdateDonation string DonationData | AddDonation DonationData

definition handleSubmit :: "string option \<Rightarrow> FormData \<Rightarrow> write_op" where
  "handleSubmit donation_id formData =
     (let donationData =
            \<lparr>data_donor = form_donor formData,
             data_amount = parseInt (form_amount formData),
             data_purpose = form_purpose formData,
             data_notes = (if form_notes formData = [] then None else Some (form_notes formData))\<rparr>
      in case donation_id of
           None \<Rightarrow> AddDonation donationData
         | Some i \<Rightarrow> if i \<noteq> [] then UpdateDonation i donationData else AddDonation donationData)"

fun written_amount :: "write_op \<Rightarrow> js_number" where
  "written_amount (UpdateDonation i d) = data_amount d"
| "written_amount (AddDonation d) = data_amount d"

text \<open>Example data: a filled-in form with the given amount text.\<close>

definition example_form :: "string \<Rightarrow> FormData" where
  "example_form a =
     \<lparr>form_donor = ''Asha'', form_amount = a, form_purpose = ''Education'', form_notes = []\<rparr>"

section \<open>Properties of the donor aggregation\<close>

subsection \<open>Rounding to a double\<close>

lemma bit_length_lower: "0 < n \<Longrightarrow> 2 ^ (bit_length n - 1) \<le> n"
proof (induction n rule: bit_length.induct)
  case (1 n)
  show ?case
  proof (cases "n div 2 \<le> 0")
    case True
    then have "n div 2 = 0" using "1.prems" by simp
    then show ?thesis using "1.prems" by (simp add: bit_length.simps[of n] bit_length.simps[of 0])
  next
    case False
    then have pos: "0 < n div 2" by simp
    have ih: "2 ^ (bit_length (n div 2) - 1) \<le> n div 2"
      using "1.IH" "1.prems" pos by simp
    have bl: "0 < bit_length (n div 2)" using pos by (simp add: bit_length.simps[of "n div 2"])
    have "bit_length n - 1 = Suc (bit_length (n div 2) - 1)"
      using "1.prems" bl by (simp add: bit_length.simps[of n])
    then have "(2::int) ^ (bit_length n - 1) = 2 * 2 ^ (bit_length (n div 2) - 1)" by simp
    also have "\<dots> \<le> 2 * (n div 2)" using ih by simp
    also have "\<dots> \<le> n" by simp
    finally show ?thesis .
  qed
qed

lemma bit_length_upper: "n < 2 ^ k \<Longrightarrow> bit_length n \<le> k"
proof (induction n arbitrary: k rule: bit_length.induct)
  case (1 n)
  show ?case
  proof (cases "n \<le> 0")
    case True
    then show ?thesis by (simp add: bit_length.simps[of n])
  next
    case False
    then obtain j where k: "k = Suc j" using "1.prems" by (cases k) auto
    have "n div 2 < 2 ^ j" using "1.prems" k by simp
    then have "bit_length (n div 2) \<le> j" using "1.IH" False by simp
    then show ?thesis using False k by (simp add: bit_length.simps[of n])
  qed
qed

lemma round_magnitude_two53: "round_magnitude (2 ^ 53) = 2 ^ 53"
  by code_simp

lemma round_magnitude_exact: "n \<le> 2 ^ 53 \<Longrightarrow> round_magnitude n = n"
proof (cases "n < 2 ^ 53")
  case True
  then show ?thesis by (simp add: round_magnitude_def)
next
  case False
  assume "n \<le> 2 ^ 53"
  with False have "n = 2 ^ 53" by simp
  then show ?thesis using round_magnitude_two53 by simp
qed

lemma round_magnitude_pos: "0 < n \<Longrightarrow> 0 < round_magnitude n"
proof (cases "n < 2 ^ 53")
  case True
  assume "0 < n"
  then show ?thesis using True by (simp add: round_magnitude_def)
next
  case False
  assume pos: "0 < n"
  define e where "e = bit_length n - 53"
  have "(2::int) ^ e \<le> 2 ^ (bit_length n - 1)"
    unfolding e_def by (rule power_increasing) simp_all
  then have le: "2 ^ e \<le> n" using bit_length_lower[OF pos] by linarith
  then have q: "0 < n div 2 ^ e" by (simp add: pos_imp_zdiv_pos_iff)
  show ?thesis using False q unfolding round_magnitude_def Let_def e_def[symmetric] by simp
qed

text \<open>Integers up to \<open>2 ^ 53\<close> in magnitude are doubles; rounding keeps the sign.\<close>

lemma to_double_exact: "\<bar>i\<bar> \<le> 2 ^ 53 \<Longrightarrow> to_double i = Number i"
proof -
  assume a: "\<bar>i\<bar> \<le> 2 ^ 53"
  then have r: "round_magnitude \<bar>i\<bar> = \<bar>i\<bar>" by (rule round_magnitude_exact)
  have "\<bar>i\<bar> < 2 ^ 54" using a by simp
  then have "bit_length \<bar>i\<bar> \<le> 54" by (rule bit_length_upper)
  then show ?thesis using r by (simp add: to_double_def Let_def)
qed

lemma not_positive_to_double: "not_positive (to_double i) = (i \<le> 0)"
proof -
  consider "i = 0" | "i < 0" | "0 < i" by linarith
  then show ?thesis
  proof cases
    case 1
    then show ?thesis by (simp add: to_double_exact)
  next
    case 2
    then have "0 < round_magnitude \<bar>i\<bar>" by (intro round_magnitude_pos) simp
    then show ?thesis using 2 by (simp add: to_double_def Let_def)
  next
    case 3
    then have "0 < round_magnitude \<bar>i\<bar>" by (intro round_magnitude_pos) simp
    then show ?thesis using 3 by (simp add: to_double_def Let_def)
  qed
qed

lemma is_negative_to_double: "is_negative (to_double i) = (i < 0)"
proof -
  consider "i = 0" | "i < 0" | "0 < i" by linarith
  then show ?thesis
  proof cases
    case 1
    then show ?thesis by (simp add: to_double_exact)
  next
    case 2
    then have "0 < round_magnitude \<bar>i\<bar>" by (intro round_magnitude_pos) simp
    then show ?thesis using 2 by (simp add: to_double_def Let_def)
  next
    case 3
    then have "0 < round_magnitude \<bar>i\<bar>" by (intro round_magnitude_pos) simp
    then show ?thesis using 3 by (simp add: to_double_def Let_def)
  qed
qed

lemma js_add_exact: "\<bar>a + b\<bar> \<le> 2 ^ 53 \<Longrightarrow> js_add (Number a) (Number b) = Number (a + b)"
  by (simp add: to_double_exact)

lemma not_positive_js_sub: "not_positive (js_sub (Number b) (Number a)) = (b \<le> a)"
  by (simp add: js_sub_def not_positive_to_double)

text \<open>The sum \<open>2 ^ 53 + 1\<close> is not a double: it is rounded to \<open>2 ^ 53\<close>.\<close>

lemma js_add_rounds:
  "js_add (Number 9007199254740992) (Number 1) = Number 9007199254740992"
  by code_simp

subsection \<open>The donor map\<close>

lemma map_get_set: "map_get (map_set m k v) k' = (if k' = k then Some v else map_get m k')"
  by (induction m) auto

lemma keys_map_set_in: "k \<in> fst ` set m \<Longrightarrow> map fst (map_set m k v) = map fst m"
  by (induction m) force+

lemma keys_map_set_notin: "k \<notin> fst ` set m \<Longrightarrow> map fst (map_set m k v) = map fst m @ [k]"
  by (induction m) auto

lemma set_keys_map_set: "set (map fst (map_set m k v)) = insert k (set (map fst m))"
  by (cases "k \<in> fst ` set m") (auto simp: keys_map_set_in keys_map_set_notin)

lemma map_get_in: "map_get m k = Some s \<Longrightarrow> (k, s) \<in> set m"
  by (induction m) (auto split: if_splits)

lemma in_map_get: "distinct (map fst m) \<Longrightarrow> (k, s) \<in> set m \<Longrightarrow> map_get m k = Some s"
  by (induction m) (force simp: image_iff)+

lemma set_map_set: "set (map_set m k v) \<subseteq> insert (k, v) (set m)"
  by (induction m) (auto split: if_splits)

lemma get_or_new_set:
  "get_or_new (map_set m k v) n = (if n = k then v else get_or_new m n)"
  by (simp add: get_or_new_def map_get_set)

lemma get_or_new_ok:
  assumes "map_ok m"
  shows "name (get_or_new m n) = n" and "date_ok (lastDonation (get_or_new m n))"
proof -
  show "name (get_or_new m n) = n"
  proof (cases "map_get m n")
    case None
    then show ?thesis by (simp add: get_or_new_def new_summary_def)
  next
    case (Some s)
    then have "(n, s) \<in> set m" by (rule map_get_in)
    then have "name s = n" using assms unfolding map_ok_def list_all_iff by fastforce
    then show ?thesis using Some by (simp add: get_or_new_def)
  qed
  show "date_ok (lastDonation (get_or_new m n))"
  proof (cases "map_get m n")
    case None
    then show ?thesis by (simp add: get_or_new_def new_summary_def date_ok_def)
  next
    case (Some s)
    then have "(n, s) \<in> set m" by (rule map_get_in)
    then have "date_ok (lastDonation s)" using assms unfolding map_ok_def list_all_iff by fastforce
    then show ?thesis using Some by (simp add: get_or_new_def)
  qed
qed

lemma map_ok_set:
  assumes "map_ok m" "name v = k" "date_ok (lastDonation v)"
  shows "map_ok (map_set m k v)"
proof -
  have d: "distinct (map fst m)" using assms(1) by (simp add: map_ok_def)
  have "distinct (map fst (map_set m k v))"
  proof (cases "k \<in> fst ` set m")
    case True
    then show ?thesis using d by (simp add: keys_map_set_in)
  next
    case False
    then show ?thesis using d by (simp add: keys_map_set_notin)
  qed
  moreover have "name s = k' \<and> date_ok (lastDonation s)"
    if "(k', s) \<in> set (map_set m k v)" for k' s
  proof -
    from that set_map_set[of m k v] have "(k', s) = (k, v) \<or> (k', s) \<in> set m" by blast
    then show ?thesis
    proof
      assume "(k', s) = (k, v)"
      then show ?thesis using assms(2,3) by simp
    next
      assume "(k', s) \<in> set m"
      then show ?thesis using assms(1) unfolding map_ok_def list_all_iff by fastforce
    qed
  qed
  ultimately show ?thesis unfolding map_ok_def list_all_iff by fastforce
qed

subsection \<open>One step of the loop\<close>

lemma should_update_ok:
  "date_ok d \<Longrightarrow> date_ok l \<Longrightarrow>
   should_update l d = Inr (l = Null \<or> (d \<noteq> Null \<and> millis d > millis l))"
  by (cases d; cases l) (auto simp: should_update_def date_ok_def)

lemma process_one_ok:
  assumes "map_ok m" "date_ok (date d)"
  shows "process_one m d = Inr (map_set m (donor d) (acc_step (get_or_new m (donor d)) d))"
proof -
  let ?e = "get_or_new m (donor d)"
  have ok: "date_ok (lastDonation ?e)"
    by (rule get_or_new_ok(2)[OF assms(1)])
  show ?thesis
    using should_update_ok[OF assms(2) ok]
    by (simp add: process_one_def get_or_new_def[symmetric] acc_step_def Let_def)
qed

lemma acc_step_name [simp]: "name (acc_step s d) = name s"
  by (simp add: acc_step_def)

lemma acc_step_date_ok:
  "date_ok (date d) \<Longrightarrow> date_ok (lastDonation s) \<Longrightarrow> date_ok (lastDonation (acc_step s d))"
  by (simp add: acc_step_def)

lemma donations_of_Cons:
  "donations_of n (d # ds) = (if donor d = n then d # donations_of n ds else donations_of n ds)"
  by (simp add: donations_of_def)

lemma forEach_ok:
  assumes "map_ok m" "list_all (\<lambda>d. date_ok (date d)) ds"
  shows "\<exists>m'. forEach_donation ds m = Inr m' \<and> map_ok m' \<and>
           set (map fst m') = set (map fst m) \<union> set (map donor ds) \<and>
           (\<forall>n. get_or_new m' n = foldl acc_step (get_or_new m n) (donations_of n ds))"
  using assms
proof (induction ds arbitrary: m)
  case Nil
  then show ?case by (simp add: donations_of_def)
next
  case (Cons d ds)
  let ?v = "acc_step (get_or_new m (donor d)) d"
  let ?m1 = "map_set m (donor d) ?v"
  have ts: "date_ok (date d)" and rest: "list_all (\<lambda>d. date_ok (date d)) ds"
    using Cons.prems(2) by simp_all
  have step: "process_one m d = Inr ?m1"
    by (rule process_one_ok[OF Cons.prems(1) ts])
  have ok1: "map_ok ?m1"
  proof (rule map_ok_set[OF Cons.prems(1)])
    show "name ?v = donor d" using get_or_new_ok(1)[OF Cons.prems(1)] by simp
    show "date_ok (lastDonation ?v)"
      by (rule acc_step_date_ok[OF ts get_or_new_ok(2)[OF Cons.prems(1)]])
  qed
  from Cons.IH[OF ok1 rest] obtain m' where
    run: "forEach_donation ds ?m1 = Inr m'" and ok': "map_ok m'" and
    keys: "set (map fst m') = set (map fst ?m1) \<union> set (map donor ds)" and
    vals: "\<forall>n. get_or_new m' n = foldl acc_step (get_or_new ?m1 n) (donations_of n ds)"
    by blast
  have "forEach_donation (d # ds) m = Inr m'" using step run by simp
  moreover have "set (map fst m') = set (map fst m) \<union> set (map donor (d # ds))"
    unfolding keys set_keys_map_set by simp
  moreover have "\<forall>n. get_or_new m' n = foldl acc_step (get_or_new m n) (donations_of n (d # ds))"
    using vals by (simp add: get_or_new_set donations_of_Cons)
  ultimately show ?case using ok' by blast
qed

subsection \<open>One donor's accumulator\<close>

lemma foldl_acc_name [simp]: "name (foldl acc_step s xs) = name s"
  by (induction xs arbitrary: s) simp_all

lemma foldl_acc_total:
  assumes "list_all (\<lambda>x. is_integer (amount x)) xs" "totalAmount s = Number t"
    "\<bar>t\<bar> + sum_list (map (\<lambda>x. \<bar>integer_of (amount x)\<bar>) xs) \<le> 2 ^ 53"
  shows "totalAmount (foldl acc_step s xs)
           = Number (t + sum_list (map (\<lambda>x. integer_of (amount x)) xs))"
  using assms
proof (induction xs arbitrary: s t)
  case Nil
  then show ?case by simp
next
  case (Cons x xs)
  obtain a where a: "amount x = Number a"
    using Cons.prems(1) by (cases "amount x") auto
  have nn: "0 \<le> sum_list (map (\<lambda>x. \<bar>integer_of (amount x)\<bar>) xs)"
    by (rule sum_list_nonneg) auto
  have bound: "\<bar>t\<bar> + \<bar>a\<bar> + sum_list (map (\<lambda>x. \<bar>integer_of (amount x)\<bar>) xs) \<le> 2 ^ 53"
    using Cons.prems(3) a by simp
  have small: "\<bar>t + a\<bar> \<le> 2 ^ 53" using bound nn by linarith
  have step: "totalAmount (acc_step s x) = Number (t + a)"
    using a Cons.prems(2) to_double_exact[OF small] by (simp add: acc_step_def)
  have rest: "list_all (\<lambda>x. is_integer (amount x)) xs" using Cons.prems(1) by simp
  have bound': "\<bar>t + a\<bar> + sum_list (map (\<lambda>x. \<bar>integer_of (amount x)\<bar>) xs) \<le> 2 ^ 53"
    using bound by linarith
  have "totalAmount (foldl acc_step (acc_step s x) xs)
          = Number ((t + a) + sum_list (map (\<lambda>x. integer_of (amount x)) xs))"
    by (rule Cons.IH[OF rest step bound'])
  then show ?case using a by (simp add: add.assoc)
qed

lemma sum_abs_filter_le:
  fixes f :: "'a \<Rightarrow> int"
  shows "sum_list (map (\<lambda>x. \<bar>f x\<bar>) (filter P xs)) \<le> sum_list (map (\<lambda>x. \<bar>f x\<bar>) xs)"
  by (induction xs) auto

lemma donor_total:
  assumes "list_all (\<lambda>d. is_integer (amount d)) ds"
    "sum_list (map (\<lambda>d. \<bar>integer_of (amount d)\<bar>) ds) \<le> 2 ^ 53"
  shows "totalAmount (foldl acc_step (new_summary n) (donations_of n ds))
           = Number (sum_list (map (\<lambda>d. integer_of (amount d)) (donations_of n ds)))"
proof -
  have a: "list_all (\<lambda>d. is_integer (amount d)) (donations_of n ds)"
    using assms(1) by (simp add: donations_of_def list_all_iff)
  have "sum_list (map (\<lambda>d. \<bar>integer_of (amount d)\<bar>) (donations_of n ds))
          \<le> sum_list (map (\<lambda>d. \<bar>integer_of (amount d)\<bar>) ds)"
    unfolding donations_of_def by (rule sum_abs_filter_le)
  then have b: "\<bar>0::int\<bar> + sum_list (map (\<lambda>d. \<bar>integer_of (amount d)\<bar>) (donations_of n ds)) \<le> 2 ^ 53"
    using assms(2) by simp
  have c: "totalAmount (new_summary n) = Number 0" by (simp add: new_summary_def)
  show ?thesis using foldl_acc_total[OF a c b] by simp
qed

lemma foldl_acc_count:
  "donationCount (foldl acc_step s xs) = donationCount s + length xs"
  by (induction xs arbitrary: s) (simp_all add: acc_step_def)

lemma foldl_acc_keep:
  assumes "list_all (\<lambda>x. date x = Null \<or> millis (date x) \<le> millis (lastDonation s)) xs"
    "lastDonation s \<noteq> Null"
  shows "lastDonation (foldl acc_step s xs) = lastDonation s"
  using assms
proof (induction xs arbitrary: s)
  case Nil
  then show ?case by simp
next
  case (Cons x xs)
  have one: "lastDonation (acc_step s x) = lastDonation s"
    using Cons.prems by (auto simp: acc_step_def)
  have "lastDonation (foldl acc_step (acc_step s x) xs) = lastDonation (acc_step s x)"
    using Cons.prems one by (intro Cons.IH) simp_all
  then show ?case using one by simp
qed

lemma foldl_acc_below:
  assumes "list_all (\<lambda>x. date x = Null \<or> millis (date x) < b) xs"
    "lastDonation s = Null \<or> millis (lastDonation s) < b"
  shows "lastDonation (foldl acc_step s xs) = Null \<or> millis (lastDonation (foldl acc_step s xs)) < b"
  using assms
proof (induction xs arbitrary: s)
  case Nil
  then show ?case by simp
next
  case (Cons x xs)
  have "lastDonation (acc_step s x) = Null \<or> millis (lastDonation (acc_step s x)) < b"
    using Cons.prems by (auto simp: acc_step_def)
  then show ?case using Cons.IH[of "acc_step s x"] Cons.prems(1) by simp
qed

lemma foldl_acc_first_max:
  assumes "is_timestamp (date d)"
    "list_all (\<lambda>x. date x = Null \<or> millis (date x) < millis (date d)) pre"
    "list_all (\<lambda>x. date x = Null \<or> millis (date x) \<le> millis (date d)) post"
    "lastDonation s = Null \<or> millis (lastDonation s) < millis (date d)"
  shows "lastDonation (foldl acc_step s (pre @ d # post)) = date d"
proof -
  let ?s1 = "foldl acc_step s pre"
  have nn: "date d \<noteq> Null" using assms(1) by (cases "date d") auto
  have below: "lastDonation ?s1 = Null \<or> millis (lastDonation ?s1) < millis (date d)"
    by (rule foldl_acc_below[OF assms(2) assms(4)])
  have hit: "lastDonation (acc_step ?s1 d) = date d"
    using below nn by (auto simp: acc_step_def)
  have "lastDonation (foldl acc_step (acc_step ?s1 d) post) = lastDonation (acc_step ?s1 d)"
    using assms(3) hit nn by (intro foldl_acc_keep) simp_all
  then show ?thesis using hit by simp
qed

lemma foldl_acc_all_null:
  assumes "list_all (\<lambda>x. date x = Null) xs" "lastDonation s = Null"
  shows "lastDonation (foldl acc_step s xs) = Null"
  using assms by (induction xs arbitrary: s) (simp_all add: acc_step_def)

lemma foldl_acc_bound:
  assumes "list_all (\<lambda>x. date_ok (date x)) xs" "is_timestamp (lastDonation s)"
  shows "is_timestamp (lastDonation (foldl acc_step s xs)) \<and>
         lastDonation (foldl acc_step s xs) \<in> insert (lastDonation s) (set (map date xs)) \<and>
         millis (lastDonation s) \<le> millis (lastDonation (foldl acc_step s xs)) \<and>
         list_all (\<lambda>x. date x = Null \<or> millis (date x) \<le> millis (lastDonation (foldl acc_step s xs))) xs"
  using assms
proof (induction xs arbitrary: s)
  case Nil
  then show ?case by simp
next
  case (Cons x xs)
  let ?s1 = "acc_step s x"
  let ?r = "lastDonation (foldl acc_step ?s1 xs)"
  have ok: "date_ok (date x)" and rest: "list_all (\<lambda>x. date_ok (date x)) xs"
    using Cons.prems(1) by simp_all
  have nn: "lastDonation s \<noteq> Null" using Cons.prems(2) by (cases "lastDonation s") auto
  have ts1: "is_timestamp (lastDonation ?s1)"
    using ok Cons.prems(2) nn by (auto simp: acc_step_def date_ok_def)
  have one: "lastDonation ?s1 = lastDonation s \<or> lastDonation ?s1 = date x"
    by (simp add: acc_step_def)
  have le1: "millis (lastDonation s) \<le> millis (lastDonation ?s1)"
    using nn by (simp add: acc_step_def)
  have le2: "date x = Null \<or> millis (date x) \<le> millis (lastDonation ?s1)"
    using nn by (simp add: acc_step_def)
  from Cons.IH[OF rest ts1] have ih1: "is_timestamp ?r"
    and ih2: "?r \<in> insert (lastDonation ?s1) (set (map date xs))"
    and ih3: "millis (lastDonation ?s1) \<le> millis ?r"
    and ih4: "list_all (\<lambda>x. date x = Null \<or> millis (date x) \<le> millis ?r) xs"
    by blast+
  have a: "?r \<in> insert (lastDonation s) (set (map date (x # xs)))"
    using one ih2 by auto
  have b: "millis (lastDonation s) \<le> millis ?r" using le1 ih3 by linarith
  have c: "date x = Null \<or> millis (date x) \<le> millis ?r" using le2 ih3 by linarith
  show ?case using ih1 a b c ih4 by simp
qed

lemma foldl_acc_latest:
  assumes "list_all (\<lambda>x. date_ok (date x)) xs" "lastDonation s = Null"
  shows "latest_date xs (lastDonation (foldl acc_step s xs))"
  using assms
proof (induction xs arbitrary: s)
  case Nil
  then show ?case by (simp add: latest_date_def)
next
  case (Cons x xs)
  let ?s1 = "acc_step s x"
  have ok: "date_ok (date x)" and rest: "list_all (\<lambda>x. date_ok (date x)) xs"
    using Cons.prems(1) by simp_all
  have first: "lastDonation ?s1 = date x" using Cons.prems(2) by (simp add: acc_step_def)
  show ?case
  proof (cases "date x = Null")
    case True
    then have "latest_date xs (lastDonation (foldl acc_step ?s1 xs))"
      using first rest by (intro Cons.IH) simp_all
    then show ?thesis using True by (auto simp: latest_date_def split: if_splits)
  next
    case False
    then have ts: "is_timestamp (lastDonation ?s1)" using ok first by (simp add: date_ok_def)
    from foldl_acc_bound[OF rest ts] first False show ?thesis
      by (simp add: latest_date_def)
  qed
qed

lemma foldl_acc_first_latest:
  "lastDonation (foldl acc_step s xs) =
     (if lastDonation s = Null \<or>
         (first_latest xs \<noteq> Null \<and> millis (lastDonation s) < millis (first_latest xs))
      then first_latest xs else lastDonation s)"
proof (induction xs arbitrary: s)
  case Nil
  show ?case by simp
next
  case (Cons x xs)
  have one: "lastDonation (acc_step s x) =
     (if lastDonation s = Null \<or> (date x \<noteq> Null \<and> millis (lastDonation s) < millis (date x))
      then date x else lastDonation s)"
    by (simp add: acc_step_def)
  show ?case unfolding foldl_Cons Cons.IH[of "acc_step s x"] one by auto
qed

subsection \<open>Stable insertion sort\<close>

lemma mset_insort_by: "mset (insort_by le x xs) = add_mset x (mset xs)"
  by (induction xs) simp_all

lemma mset_sort_by: "mset (sort_by le xs) = mset xs"
  unfolding sort_by_def by (induction xs) (simp_all add: mset_insort_by)

lemma set_sort_by: "set (sort_by le xs) = set xs"
  using mset_sort_by[of le xs] by (metis set_mset_mset)

lemma length_sort_by: "length (sort_by le xs) = length xs"
  using mset_sort_by[of le xs] by (metis size_mset)

lemma set_insort_by: "set (insort_by le x xs) = insert x (set xs)"
  using mset_insort_by[of le x xs] by (metis set_mset_mset set_mset_add_mset_insert)

lemma sorted_insort_by:
  assumes total: "\<And>a b. le a b \<or> le b a" and trans: "\<And>a b c. le a b \<Longrightarrow> le b c \<Longrightarrow> le a c"
    and "sorted_wrt le xs"
  shows "sorted_wrt le (insort_by le x xs)"
  using assms(3)
proof (induction xs)
  case Nil
  then show ?case by simp
next
  case (Cons y ys)
  show ?case
  proof (cases "le x y")
    case True
    then have "\<forall>z\<in>set ys. le x z" using Cons.prems trans by auto
    then show ?thesis using True Cons.prems by simp
  next
    case False
    then have "le y x" using total by blast
    then show ?thesis using False Cons by (auto simp: set_insort_by)
  qed
qed

lemma sorted_sort_by:
  assumes total: "\<And>a b. le a b \<or> le b a" and trans: "\<And>a b c. le a b \<Longrightarrow> le b c \<Longrightarrow> le a c"
  shows "sorted_wrt le (sort_by le xs)"
  unfolding sort_by_def
proof (induction xs)
  case Nil
  show ?case by simp
next
  case (Cons x xs)
  show ?case using sorted_insort_by[of le, OF total trans Cons] by simp
qed

lemma distinct_map_sort_by: "distinct (map f (sort_by le xs)) = distinct (map f xs)"
proof -
  have "mset (map f (sort_by le xs)) = mset (map f xs)" by (simp add: mset_sort_by)
  then show ?thesis by (rule mset_eq_imp_distinct_iff)
qed

lemma insort_by_cong:
  "(\<And>y. y \<in> set ys \<Longrightarrow> le x y = le' x y) \<Longrightarrow> insort_by le x ys = insort_by le' x ys"
  by (induction ys) auto

lemma sort_by_cong:
  assumes "\<And>a b. a \<in> set xs \<Longrightarrow> b \<in> set xs \<Longrightarrow> le a b = le' a b"
  shows "sort_by le xs = sort_by le' xs"
  using assms
proof (induction xs)
  case Nil
  show ?case by (simp add: sort_by_def)
next
  case (Cons x xs)
  have ih: "sort_by le xs = sort_by le' xs" using Cons.prems by (intro Cons.IH) simp_all
  have "insort_by le x (sort_by le' xs) = insort_by le' x (sort_by le' xs)"
    using Cons.prems by (intro insort_by_cong) (simp add: set_sort_by)
  then show ?case using ih by (simp add: sort_by_def)
qed

text \<open>
  On summaries whose totals are integers the comparator \<open>b.totalAmount - a.totalAmount\<close>
  orders by the totals themselves: the difference may be rounded, its sign is not.
\<close>

lemma js_sort_total_integers:
  assumes "list_all (\<lambda>s. is_integer (totalAmount s)) xs"
  shows "js_sort (\<lambda>a b. js_sub (totalAmount b) (totalAmount a)) xs
           = sort_by (\<lambda>a b. integer_of (totalAmount b) \<le> integer_of (totalAmount a)) xs"
  unfolding js_sort_def
proof (rule sort_by_cong)
  fix a b assume "a \<in> set xs" "b \<in> set xs"
  then obtain ta tb where "totalAmount a = Number ta" "totalAmount b = Number tb"
    using assms unfolding list_all_iff
    by (metis is_integer.elims(2))
  then show "not_positive (js_sub (totalAmount b) (totalAmount a))
               = (integer_of (totalAmount b) \<le> integer_of (totalAmount a))"
    by (simp add: not_positive_js_sub)
qed

lemma sorted_js_sort_total:
  assumes "list_all (\<lambda>s. is_integer (totalAmount s)) xs"
  shows "sorted_wrt (\<lambda>a b. integer_of (totalAmount a) \<ge> integer_of (totalAmount b))
           (js_sort (\<lambda>a b. js_sub (totalAmount b) (totalAmount a)) xs)"
proof -
  have "sorted_wrt (\<lambda>a b. integer_of (totalAmount b) \<le> integer_of (totalAmount a))
          (sort_by (\<lambda>a b. integer_of (totalAmount b) \<le> integer_of (totalAmount a)) xs)"
    by (rule sorted_sort_by) auto
  then show ?thesis by (simp add: js_sort_total_integers[OF assms])
qed

subsection \<open>The whole aggregation\<close>

lemma processDonations_ok:
  assumes "list_all (\<lambda>d. date_ok (date d)) ds"
  shows "\<exists>out. processDonations ds = Inr out \<and>
           distinct (map name out) \<and> set (map name out) = set (map donor ds) \<and>
           (\<forall>s\<in>set out. s = foldl acc_step (new_summary (name s)) (donations_of (name s) ds))"
proof -
  have ok0: "map_ok []" by (simp add: map_ok_def)
  from forEach_ok[OF ok0 assms] obtain m where
    run: "forEach_donation ds [] = Inr m" and ok: "map_ok m" and
    keys: "set (map fst m) = set (map donor ds)" and
    vals: "\<forall>n. get_or_new m n = foldl acc_step (new_summary n) (donations_of n ds)"
    by (auto simp: get_or_new_def)
  let ?cmp = "\<lambda>a b. js_sub (totalAmount b) (totalAmount a)"
  let ?out = "js_sort ?cmp (map_values m)"
  have names: "map name (map_values m) = map fst m"
    using ok unfolding map_ok_def list_all_iff map_values_def by auto
  have res: "processDonations ds = Inr ?out" using run by (simp add: processDonations_def)
  have d: "distinct (map name ?out)"
    using ok names by (simp add: js_sort_def distinct_map_sort_by map_ok_def)
  have k: "set (map name ?out) = set (map donor ds)"
  proof -
    have "set (map name ?out) = name ` set (map_values m)" by (simp add: js_sort_def set_sort_by)
    also have "\<dots> = set (map name (map_values m))" by simp
    finally show ?thesis using names keys by simp
  qed
  have v: "s = foldl acc_step (new_summary (name s)) (donations_of (name s) ds)"
    if "s \<in> set ?out" for s
  proof -
    from that have "s \<in> set (map_values m)" by (simp add: js_sort_def set_sort_by)
    then obtain k where in_m: "(k, s) \<in> set m" by (auto simp: map_values_def)
    then have "name s = k" using ok unfolding map_ok_def list_all_iff by fastforce
    moreover have "map_get m k = Some s" using ok in_m by (simp add: map_ok_def in_map_get)
    ultimately have "get_or_new m (name s) = s" by (simp add: get_or_new_def)
    then show ?thesis using vals by metis
  qed
  show ?thesis using res d k v by blast
qed

subsection \<open>Order of the summaries\<close>

lemma set_first_seen [simp]: "set (first_seen xs) = set xs"
  by (induction xs) auto

lemma distinct_first_seen [simp]: "distinct (first_seen xs)"
  by (induction xs) auto

lemma forEach_keys:
  assumes "map_ok m" "list_all (\<lambda>d. date_ok (date d)) ds"
  shows "\<exists>m'. forEach_donation ds m = Inr m' \<and>
           map fst m' = map fst m @ filter (\<lambda>k. k \<notin> set (map fst m)) (first_seen (map donor ds))"
  using assms
proof (induction ds arbitrary: m)
  case Nil
  then show ?case by simp
next
  case (Cons d ds)
  let ?v = "acc_step (get_or_new m (donor d)) d"
  let ?m1 = "map_set m (donor d) ?v"
  let ?fs = "first_seen (map donor ds)"
  have ts: "date_ok (date d)" and rest: "list_all (\<lambda>d. date_ok (date d)) ds"
    using Cons.prems(2) by simp_all
  have step: "process_one m d = Inr ?m1"
    by (rule process_one_ok[OF Cons.prems(1) ts])
  have ok1: "map_ok ?m1"
  proof (rule map_ok_set[OF Cons.prems(1)])
    show "name ?v = donor d" using get_or_new_ok(1)[OF Cons.prems(1)] by simp
    show "date_ok (lastDonation ?v)"
      by (rule acc_step_date_ok[OF ts get_or_new_ok(2)[OF Cons.prems(1)]])
  qed
  from Cons.IH[OF ok1 rest] obtain m' where
    run: "forEach_donation ds ?m1 = Inr m'" and
    keys: "map fst m' = map fst ?m1 @ filter (\<lambda>k. k \<notin> set (map fst ?m1)) ?fs"
    by blast
  have run': "forEach_donation (d # ds) m = Inr m'" using step run by simp
  have "map fst m' = map fst m @
          filter (\<lambda>k. k \<notin> set (map fst m)) (first_seen (map donor (d # ds)))"
  proof (cases "donor d \<in> fst ` set m")
    case True
    have "filter (\<lambda>k. k \<notin> set (map fst m)) (filter (\<lambda>y. y \<noteq> donor d) ?fs)
            = filter (\<lambda>k. k \<notin> set (map fst m)) ?fs"
      using True by (auto simp: filter_filter intro: filter_cong)
    then show ?thesis using keys True by (simp add: keys_map_set_in)
  next
    case False
    have "filter (\<lambda>k. k \<notin> set (map fst m @ [donor d])) ?fs
            = filter (\<lambda>k. k \<notin> set (map fst m)) (filter (\<lambda>y. y \<noteq> donor d) ?fs)"
      by (auto simp: filter_filter intro: filter_cong)
    then show ?thesis using keys False by (simp add: keys_map_set_notin)
  qed
  then show ?case using run' by blast
qed

lemma stable_insort_by:
  assumes trans: "\<And>a b c. le a b \<Longrightarrow> le b c \<Longrightarrow> le a c"
  shows "filter (\<lambda>y. le y c \<and> le c y) (insort_by le x xs)
           = filter (\<lambda>y. le y c \<and> le c y) (x # xs)"
proof (induction xs)
  case Nil
  show ?case by simp
next
  case (Cons y ys)
  show ?case
  proof (cases "le x y")
    case True
    then show ?thesis by simp
  next
    case False
    have "\<not> (le y c \<and> le c y)" if "le x c \<and> le c x"
      using that False trans by blast
    then show ?thesis using False Cons by auto
  qed
qed

lemma stable_sort_by:
  assumes trans: "\<And>a b c. le a b \<Longrightarrow> le b c \<Longrightarrow> le a c"
  shows "filter (\<lambda>y. le y c \<and> le c y) (sort_by le xs) = filter (\<lambda>y. le y c \<and> le c y) xs"
proof (induction xs)
  case Nil
  show ?case by (simp add: sort_by_def)
next
  case (Cons x xs)
  have "filter (\<lambda>y. le y c \<and> le c y) (sort_by le (x # xs))
          = filter (\<lambda>y. le y c \<and> le c y) (x # sort_by le xs)"
    using stable_insort_by[of le c x "sort_by le xs", OF trans] by (simp add: sort_by_def)
  then show ?case using Cons by simp
qed

lemma stable_js_sort_total:
  fixes xs :: "DonorSummary list"
  assumes "list_all (\<lambda>s. is_integer (totalAmount s)) xs"
  shows "filter (\<lambda>s. totalAmount s = Number k)
           (js_sort (\<lambda>a b. js_sub (totalAmount b) (totalAmount a)) xs)
     = filter (\<lambda>s. totalAmount s = Number k) xs"
proof -
  define le where "le a b = (integer_of (totalAmount b) \<le> integer_of (totalAmount a))"
    for a b :: DonorSummary
  define c where "c = \<lparr>name = [], totalAmount = Number k, lastDonation = Null, donationCount = 0\<rparr>"
  have tr: "le a b \<Longrightarrow> le b d \<Longrightarrow> le a d" for a b d by (simp add: le_def)
  have st: "filter (\<lambda>y. le y c \<and> le c y) (sort_by le xs) = filter (\<lambda>y. le y c \<and> le c y) xs"
    using tr by (rule stable_sort_by)
  have cls: "(\<lambda>y. le y c \<and> le c y) = (\<lambda>s. integer_of (totalAmount s) = k)"
    by (rule ext) (auto simp: le_def c_def)
  have le: "le = (\<lambda>a b. integer_of (totalAmount b) \<le> integer_of (totalAmount a))"
    by (intro ext) (simp add: le_def)
  have srt: "js_sort (\<lambda>a b. js_sub (totalAmount b) (totalAmount a)) xs = sort_by le xs"
    unfolding le by (rule js_sort_total_integers[OF assms])
  have same: "filter (\<lambda>s. totalAmount s = Number k) ys = filter (\<lambda>s. integer_of (totalAmount s) = k) ys"
    if "set ys \<subseteq> set xs" for ys
  proof (rule filter_cong[OF refl])
    fix s assume "s \<in> set ys"
    then have "is_integer (totalAmount s)" using that assms unfolding list_all_iff by blast
    then show "(totalAmount s = Number k) = (integer_of (totalAmount s) = k)"
      by (cases "totalAmount s") auto
  qed
  have "filter (\<lambda>s. totalAmount s = Number k) (sort_by le xs)
          = filter (\<lambda>s. integer_of (totalAmount s) = k) (sort_by le xs)"
    by (rule same) (simp add: set_sort_by)
  also have "\<dots> = filter (\<lambda>s. integer_of (totalAmount s) = k) xs"
    using st unfolding cls .
  also have "\<dots> = filter (\<lambda>s. totalAmount s = Number k) xs"
    by (rule same[symmetric]) simp
  finally show ?thesis unfolding srt .
qed

lemma processDonations_order:
  assumes "list_all (\<lambda>d. date_ok (date d)) ds" "list_all (\<lambda>d. is_integer (amount d)) ds"
    "sum_list (map (\<lambda>d. \<bar>integer_of (amount d)\<bar>) ds) \<le> 2 ^ 53"
    "processDonations ds = Inr out"
  shows "sorted_wrt (\<lambda>a b. integer_of (totalAmount a) \<ge> integer_of (totalAmount b)) out"
    and "map name (filter (\<lambda>s. totalAmount s = Number k) out)
           = filter (\<lambda>n. sum_list (map (\<lambda>d. integer_of (amount d)) (donations_of n ds)) = k)
               (first_seen (map donor ds))"
proof -
  have ok0: "map_ok []" by (simp add: map_ok_def)
  from forEach_ok[OF ok0 assms(1)] obtain m where
    run: "forEach_donation ds [] = Inr m" and ok: "map_ok m" and
    vals: "\<forall>n. get_or_new m n = foldl acc_step (get_or_new [] n) (donations_of n ds)"
    by blast
  from forEach_keys[OF ok0 assms(1)] run have keys: "map fst m = first_seen (map donor ds)"
    by simp
  have out: "out = js_sort (\<lambda>a b. js_sub (totalAmount b) (totalAmount a)) (map_values m)"
    using assms(4) run by (simp add: processDonations_def)
  have each: "name s = n \<and>
      totalAmount s = Number (sum_list (map (\<lambda>d. integer_of (amount d)) (donations_of n ds)))"
    if "(n, s) \<in> set m" for n s
  proof -
    have nm: "name s = n" using ok that unfolding map_ok_def list_all_iff by fastforce
    have "map_get m n = Some s" using ok that by (simp add: map_ok_def in_map_get)
    then have "get_or_new m n = s" by (simp add: get_or_new_def)
    then have "s = foldl acc_step (new_summary n) (donations_of n ds)"
      using vals by (simp add: get_or_new_def)
    then have "totalAmount s = Number (sum_list (map (\<lambda>d. integer_of (amount d)) (donations_of n ds)))"
      using donor_total[OF assms(2,3), of n] by simp
    then show ?thesis using nm by simp
  qed
  have ints: "list_all (\<lambda>s. is_integer (totalAmount s)) (map_values m)"
    unfolding list_all_iff map_values_def
  proof
    fix s assume "s \<in> set (map snd m)"
    then obtain n where "(n, s) \<in> set m" by auto
    then show "is_integer (totalAmount s)" using each by simp
  qed
  show "sorted_wrt (\<lambda>a b. integer_of (totalAmount a) \<ge> integer_of (totalAmount b)) out"
    unfolding out by (rule sorted_js_sort_total[OF ints])
  have "map name (filter (\<lambda>s. totalAmount s = Number k) (map snd m))
          = filter (\<lambda>n. sum_list (map (\<lambda>d. integer_of (amount d)) (donations_of n ds)) = k) (map fst m)"
    using each
  proof (induction m)
    case Nil
    show ?case by simp
  next
    case (Cons p m)
    obtain n s where p: "p = (n, s)" by (cases p)
    have "name s = n \<and>
        totalAmount s = Number (sum_list (map (\<lambda>d. integer_of (amount d)) (donations_of n ds)))"
      using Cons.prems p by simp
    moreover have "map name (filter (\<lambda>s. totalAmount s = Number k) (map snd m))
          = filter (\<lambda>n. sum_list (map (\<lambda>d. integer_of (amount d)) (donations_of n ds)) = k) (map fst m)"
      using Cons.prems by (intro Cons.IH) simp
    ultimately show ?case using p by simp
  qed
  moreover have "filter (\<lambda>s. totalAmount s = Number k) out
                   = filter (\<lambda>s. totalAmount s = Number k) (map snd m)"
    using stable_js_sort_total[OF ints, of k] by (simp add: out map_values_def)
  ultimately show "map name (filter (\<lambda>s. totalAmount s = Number k) out)
           = filter (\<lambda>n. sum_list (map (\<lambda>d. integer_of (amount d)) (donations_of n ds)) = k)
               (first_seen (map donor ds))"
    using keys by simp
qed

subsection \<open>Claims about the aggregation\<close>

lemmas agg_defs = processDonations_def process_one_def should_update_def new_summary_def
  js_sort_def sort_by_def map_values_def Let_def js_sub_def to_double_exact not_positive_to_double

text \<open>
  C2 (as amended). Take donations whose dates are store timestamps (or missing) and
  whose amounts are integers with absolute values summing to at most \<open>2 ^ 53\<close>, so that
  every sum of them is a number the language holds exactly. Then \<open>processDonations\<close>
  returns one summary per distinct donor name; its \<open>totalAmount\<close> is the sum of that
  donor's amounts, its \<open>donationCount\<close> their number, and its \<open>lastDonation\<close> is the date
  of that donor with the latest \<open>toDate()\<close> instant, the first one in input order when
  several dates share that millisecond; the summaries are ordered by \<open>totalAmount\<close>
  descending, and summaries with equal totals stay in the order in which their donors
  are first seen. On the three donations A 100 at \<open>d1\<close>, B 50 at \<open>d2\<close>, A 30 at \<open>d3\<close>
  the result is A (130, 2 donations) followed by B (50, 1 donation, \<open>d2\<close>), and the date
  of A is \<open>d3\<close> when the instant of \<open>d3\<close> is later than that of \<open>d1\<close>, and \<open>d1\<close> otherwise.
\<close>

theorem processDonations_aggregates:
  "(list_all (\<lambda>d. date_ok (date d) \<and> is_integer (amount d)) ds \<and>
    sum_list (map (\<lambda>d. \<bar>integer_of (amount d)\<bar>) ds) \<le> 2 ^ 53 \<longrightarrow>
      (\<exists>out. processDonations ds = Inr out \<and>
         distinct (map name out) \<and> set (map name out) = set (map donor ds) \<and>
         list_all (\<lambda>s. totalAmount s
                         = Number (sum_list (map (\<lambda>d. integer_of (amount d))
                                                 (donations_of (name s) ds))) \<and>
                       donationCount s = length (donations_of (name s) ds) \<and>
                       lastDonation s = first_latest (donations_of (name s) ds) \<and>
                       latest_date (donations_of (name s) ds) (lastDonation s)) out \<and>
         sorted_wrt (\<lambda>a b. integer_of (totalAmount a) \<ge> integer_of (totalAmount b)) out \<and>
         (\<forall>k. map name (filter (\<lambda>s. totalAmount s = Number k) out)
               = filter (\<lambda>n. sum_list (map (\<lambda>d. integer_of (amount d)) (donations_of n ds)) = k)
                   (first_seen (map donor ds))))) \<and>
   processDonations
     [\<lparr>doc_id = i1, donor = ''A'', amount = Number 100, date = Timestamp t1 u1\<rparr>,
      \<lparr>doc_id = i2, donor = ''B'', amount = Number 50, date = Timestamp t2 u2\<rparr>,
      \<lparr>doc_id = i3, donor = ''A'', amount = Number 30, date = Timestamp t3 u3\<rparr>]
   = Inr [\<lparr>name = ''A'', totalAmount = Number 130,
           lastDonation = (if t1 < t3 then Timestamp t3 u3 else Timestamp t1 u1),
           donationCount = 2\<rparr>,
          \<lparr>name = ''B'', totalAmount = Number 50, lastDonation = Timestamp t2 u2,
           donationCount = 1\<rparr>]"
proof (intro conjI impI)
  assume h: "list_all (\<lambda>d. date_ok (date d) \<and> is_integer (amount d)) ds \<and>
    sum_list (map (\<lambda>d. \<bar>integer_of (amount d)\<bar>) ds) \<le> 2 ^ 53"
  then have ok: "list_all (\<lambda>d. date_ok (date d)) ds"
    and ints: "list_all (\<lambda>d. is_integer (amount d)) ds"
    and bound: "sum_list (map (\<lambda>d. \<bar>integer_of (amount d)\<bar>) ds) \<le> 2 ^ 53"
    by (simp_all add: list_all_iff)
  from processDonations_ok[OF ok] obtain out where
    res: "processDonations ds = Inr out" and d: "distinct (map name out)" and
    k: "set (map name out) = set (map donor ds)" and
    v: "\<forall>s\<in>set out. s = foldl acc_step (new_summary (name s)) (donations_of (name s) ds)"
    by blast
  have each: "totalAmount s = Number (sum_list (map (\<lambda>d. integer_of (amount d))
                                                     (donations_of (name s) ds))) \<and>
              donationCount s = length (donations_of (name s) ds) \<and>
              lastDonation s = first_latest (donations_of (name s) ds) \<and>
              latest_date (donations_of (name s) ds) (lastDonation s)"
    if "s \<in> set out" for s
  proof -
    let ?xs = "donations_of (name s) ds"
    let ?s0 = "new_summary (name s)"
    have eq: "s = foldl acc_step ?s0 ?xs" using v that by blast
    have xs_ok: "list_all (\<lambda>x. date_ok (date x)) ?xs"
      using ok by (simp add: donations_of_def list_all_iff)
    have t: "totalAmount (foldl acc_step ?s0 ?xs)
               = Number (sum_list (map (\<lambda>d. integer_of (amount d)) ?xs))"
      by (rule donor_total[OF ints bound])
    have c: "donationCount (foldl acc_step ?s0 ?xs) = length ?xs"
      by (simp add: foldl_acc_count new_summary_def)
    have f: "lastDonation (foldl acc_step ?s0 ?xs) = first_latest ?xs"
      by (simp add: foldl_acc_first_latest new_summary_def)
    have l: "latest_date ?xs (lastDonation (foldl acc_step ?s0 ?xs))"
      by (rule foldl_acc_latest[OF xs_ok]) (simp add: new_summary_def)
    show ?thesis using eq t c f l by metis
  qed
  show "\<exists>out. processDonations ds = Inr out \<and>
         distinct (map name out) \<and> set (map name out) = set (map donor ds) \<and>
         list_all (\<lambda>s. totalAmount s
                         = Number (sum_list (map (\<lambda>d. integer_of (amount d))
                                                 (donations_of (name s) ds))) \<and>
                       donationCount s = length (donations_of (name s) ds) \<and>
                       lastDonation s = first_latest (donations_of (name s) ds) \<and>
                       latest_date (donations_of (name s) ds) (lastDonation s)) out \<and>
         sorted_wrt (\<lambda>a b. integer_of (totalAmount a) \<ge> integer_of (totalAmount b)) out \<and>
         (\<forall>k. map name (filter (\<lambda>s. totalAmount s = Number k) out)
               = filter (\<lambda>n. sum_list (map (\<lambda>d. integer_of (amount d)) (donations_of n ds)) = k)
                   (first_seen (map donor ds)))"
    using res d k each processDonations_order[OF ok ints bound res]
    unfolding list_all_iff by blast
next
  show "processDonations
     [\<lparr>doc_id = i1, donor = ''A'', amount = Number 100, date = Timestamp t1 u1\<rparr>,
      \<lparr>doc_id = i2, donor = ''B'', amount = Number 50, date = Timestamp t2 u2\<rparr>,
      \<lparr>doc_id = i3, donor = ''A'', amount = Number 30, date = Timestamp t3 u3\<rparr>]
   = Inr [\<lparr>name = ''A'', totalAmount = Number 130,
           lastDonation = (if t1 < t3 then Timestamp t3 u3 else Timestamp t1 u1),
           donationCount = 2\<rparr>,
          \<lparr>name = ''B'', totalAmount = Number 50, lastDonation = Timestamp t2 u2,
           donationCount = 1\<rparr>]"
    by (cases "t1 < t3") (simp_all add: agg_defs)
qed

theorem processDonations_aggregates_witness:
  "list_all (\<lambda>d. date_ok (date d) \<and> is_integer (amount d))
     [\<lparr>doc_id = ''d1'', donor = ''A'', amount = Number 100, date = Timestamp 20 0\<rparr>,
      \<lparr>doc_id = ''d2'', donor = ''B'', amount = Number 50, date = Timestamp 10 0\<rparr>,
      \<lparr>doc_id = ''d3'', donor = ''A'', amount = Number 30, date = Timestamp 30 0\<rparr>] \<and>
   sum_list (map (\<lambda>d. \<bar>integer_of (amount d)\<bar>)
     [\<lparr>doc_id = ''d1'', donor = ''A'', amount = Number 100, date = Timestamp 20 0\<rparr>,
      \<lparr>doc_id = ''d2'', donor = ''B'', amount = Number 50, date = Timestamp 10 0\<rparr>,
      \<lparr>doc_id = ''d3'', donor = ''A'', amount = Number 30, date = Timestamp 30 0\<rparr>]) \<le> 2 ^ 53 \<and>
   processDonations
     [\<lparr>doc_id = ''d1'', donor = ''A'', amount = Number 100, date = Timestamp 20 0\<rparr>,
      \<lparr>doc_id = ''d2'', donor = ''B'', amount = Number 50, date = Timestamp 10 0\<rparr>,
      \<lparr>doc_id = ''d3'', donor = ''A'', amount = Number 30, date = Timestamp 30 0\<rparr>]
   = Inr [\<lparr>name = ''A'', totalAmount = Number 130, lastDonation = Timestamp 30 0, donationCount = 2\<rparr>,
          \<lparr>name = ''B'', totalAmount = Number 50, lastDonation = Timestamp 10 0, donationCount = 1\<rparr>] \<and>
   (\<exists>out. processDonations
       [\<lparr>doc_id = ''d1'', donor = ''A'', amount = Number 100, date = Timestamp 20 0\<rparr>,
        \<lparr>doc_id = ''d2'', donor = ''B'', amount = Number 50, date = Timestamp 10 0\<rparr>,
        \<lparr>doc_id = ''d3'', donor = ''A'', amount = Number 30, date = Timestamp 30 0\<rparr>] = Inr out \<and>
      distinct (map name out) \<and> set (map name out) = {''A'', ''B''} \<and>
      sorted_wrt (\<lambda>a b. integer_of (totalAmount a) \<ge> integer_of (totalAmount b)) out)"
proof -
  let ?ds = "[\<lparr>doc_id = ''d1'', donor = ''A'', amount = Number 100, date = Timestamp 20 0\<rparr>,
      \<lparr>doc_id = ''d2'', donor = ''B'', amount = Number 50, date = Timestamp 10 0\<rparr>,
      \<lparr>doc_id = ''d3'', donor = ''A'', amount = Number 30, date = Timestamp 30 0\<rparr>]"
  have hyp: "list_all (\<lambda>d. date_ok (date d) \<and> is_integer (amount d)) ?ds \<and>
             sum_list (map (\<lambda>d. \<bar>integer_of (amount d)\<bar>) ?ds) \<le> 2 ^ 53"
    by (simp add: date_ok_def)
  note inst = processDonations_aggregates[of "?ds" "''d1''" 20 0 "''d2''" 10 0 "''d3''" 30 0]
  from inst hyp obtain out where
    "processDonations ?ds = Inr out" "distinct (map name out)"
    "set (map name out) = set (map donor ?ds)"
    "sorted_wrt (\<lambda>a b. integer_of (totalAmount a) \<ge> integer_of (totalAmount b)) out"
    by blast
  then have ex: "\<exists>out. processDonations ?ds = Inr out \<and>
      distinct (map name out) \<and> set (map name out) = {''A'', ''B''} \<and>
      sorted_wrt (\<lambda>a b. integer_of (totalAmount a) \<ge> integer_of (totalAmount b)) out"
    by auto
  have run: "processDonations ?ds
   = Inr [\<lparr>name = ''A'', totalAmount = Number 130, lastDonation = Timestamp 30 0, donationCount = 2\<rparr>,
          \<lparr>name = ''B'', totalAmount = Number 50, lastDonation = Timestamp 10 0, donationCount = 1\<rparr>]"
    using inst by simp
  show ?thesis using hyp ex run by blast
qed

text \<open>
  Neither restriction can be dropped. On the example with \<open>d3 > d1 > d2\<close> as the
  store orders them, but \<open>d1\<close> and \<open>d3\<close> within one millisecond, the summary of A keeps
  \<open>d1\<close>, not the latest date \<open>d3\<close>. And a total is a double, not the sum: two
  donations of \<open>2 ^ 53\<close> and 1 give the total \<open>2 ^ 53\<close>.
\<close>

theorem latest_date_and_sum_counterexample:
  "value_less (Timestamp 4 0) (Timestamp 5 1) \<and> value_less (Timestamp 5 1) (Timestamp 5 2) \<and>
   processDonations
     [\<lparr>doc_id = ''d1'', donor = ''A'', amount = Number 100, date = Timestamp 5 1\<rparr>,
      \<lparr>doc_id = ''d2'', donor = ''B'', amount = Number 50, date = Timestamp 4 0\<rparr>,
      \<lparr>doc_id = ''d3'', donor = ''A'', amount = Number 30, date = Timestamp 5 2\<rparr>]
   = Inr [\<lparr>name = ''A'', totalAmount = Number 130, lastDonation = Timestamp 5 1, donationCount = 2\<rparr>,
          \<lparr>name = ''B'', totalAmount = Number 50, lastDonation = Timestamp 4 0, donationCount = 1\<rparr>] \<and>
   processDonations
     [\<lparr>doc_id = ''d1'', donor = ''A'', amount = Number 9007199254740992, date = Timestamp 1 0\<rparr>,
      \<lparr>doc_id = ''d2'', donor = ''A'', amount = Number 1, date = Timestamp 2 0\<rparr>]
   = Inr [\<lparr>name = ''A'', totalAmount = Number 9007199254740992, lastDonation = Timestamp 2 0,
           donationCount = 2\<rparr>]"
  by code_simp

text \<open>
  C7. The stored date is replaced only by a strictly later instant: on two timestamps
  \<open>should_update\<close> holds exactly when the new instant is strictly greater. So when a
  donor's donations contain \<open>d1\<close> and, later in the input, \<open>d2\<close> with the identical
  instant, and that instant is the donor's latest (first reached by \<open>d1\<close>), the
  donor's summary keeps the date of the earlier-seen \<open>d1\<close>.
\<close>

theorem equal_dates_keep_earlier:
  "(is_timestamp l \<and> is_timestamp d \<longrightarrow> should_update l d = Inr (millis d > millis l)) \<and>
   (list_all (\<lambda>x. date_ok (date x)) ds \<and>
    donations_of n ds = pre @ d1 # mid @ d2 # post \<and>
    is_timestamp (date d1) \<and> is_timestamp (date d2) \<and>
    millis (date d2) = millis (date d1) \<and>
    list_all (\<lambda>x. date x = Null \<or> millis (date x) < millis (date d1)) pre \<and>
    list_all (\<lambda>x. date x = Null \<or> millis (date x) \<le> millis (date d1)) (mid @ post)
    \<longrightarrow> (\<exists>out. processDonations ds = Inr out \<and> n \<in> set (map name out) \<and>
           list_all (\<lambda>s. name s = n \<longrightarrow> lastDonation s = date d1) out))"
proof (intro conjI impI)
  assume "is_timestamp l \<and> is_timestamp d"
  then show "should_update l d = Inr (millis d > millis l)"
    by (cases l; cases d) (simp_all add: should_update_def)
next
  assume h: "list_all (\<lambda>x. date_ok (date x)) ds \<and>
    donations_of n ds = pre @ d1 # mid @ d2 # post \<and>
    is_timestamp (date d1) \<and> is_timestamp (date d2) \<and>
    millis (date d2) = millis (date d1) \<and>
    list_all (\<lambda>x. date x = Null \<or> millis (date x) < millis (date d1)) pre \<and>
    list_all (\<lambda>x. date x = Null \<or> millis (date x) \<le> millis (date d1)) (mid @ post)"
  then have ok: "list_all (\<lambda>x. date_ok (date x)) ds" by blast
  from processDonations_ok[OF ok] obtain out where
    res: "processDonations ds = Inr out" and
    k: "set (map name out) = set (map donor ds)" and
    v: "\<forall>s\<in>set out. s = foldl acc_step (new_summary (name s)) (donations_of (name s) ds)"
    by blast
  have "d1 \<in> set (donations_of n ds)" using h by simp
  then have "n \<in> set (map donor ds)" by (auto simp: donations_of_def)
  then have mem: "n \<in> set (map name out)" using k by simp
  have post_ok: "list_all (\<lambda>x. date x = Null \<or> millis (date x) \<le> millis (date d1))
                   (mid @ d2 # post)"
    using h by simp
  have last: "lastDonation (foldl acc_step (new_summary n) (pre @ d1 # mid @ d2 # post)) = date d1"
    using h post_ok by (intro foldl_acc_first_max) (simp_all add: new_summary_def)
  have "lastDonation s = date d1" if "s \<in> set out" "name s = n" for s
  proof -
    have "s = foldl acc_step (new_summary n) (donations_of n ds)" using v that by blast
    then show ?thesis using last h by simp
  qed
  then show "\<exists>out. processDonations ds = Inr out \<and> n \<in> set (map name out) \<and>
           list_all (\<lambda>s. name s = n \<longrightarrow> lastDonation s = date d1) out"
    using res mem unfolding list_all_iff by blast
qed

theorem equal_dates_keep_earlier_witness:
  "should_update (Timestamp 5 1) (Timestamp 5 2) = Inr False \<and>
   (\<exists>out. processDonations
      [\<lparr>doc_id = ''d1'', donor = ''A'', amount = Number 100, date = Timestamp 5 1\<rparr>,
       \<lparr>doc_id = ''d2'', donor = ''A'', amount = Number 30, date = Timestamp 5 2\<rparr>] = Inr out \<and>
      ''A'' \<in> set (map name out) \<and>
      list_all (\<lambda>s. name s = ''A'' \<longrightarrow> lastDonation s = Timestamp 5 1) out)"
proof -
  let ?d1 = "\<lparr>doc_id = ''d1'', donor = ''A'', amount = Number 100, date = Timestamp 5 1\<rparr>"
  let ?d2 = "\<lparr>doc_id = ''d2'', donor = ''A'', amount = Number 30, date = Timestamp 5 2\<rparr>"
  have hyp: "list_all (\<lambda>x. date_ok (date x)) [?d1, ?d2] \<and>
    donations_of ''A'' [?d1, ?d2] = [] @ ?d1 # [] @ ?d2 # [] \<and>
    is_timestamp (date ?d1) \<and> is_timestamp (date ?d2) \<and>
    millis (date ?d2) = millis (date ?d1) \<and>
    list_all (\<lambda>x. date x = Null \<or> millis (date x) < millis (date ?d1)) [] \<and>
    list_all (\<lambda>x. date x = Null \<or> millis (date x) \<le> millis (date ?d1)) ([] @ [])"
    by (simp add: date_ok_def donations_of_def)
  from equal_dates_keep_earlier[of "Timestamp 5 1" "Timestamp 5 2" "[?d1, ?d2]" "''A''" "[]" ?d1 "[]" ?d2 "[]"] hyp
  show ?thesis by simp
qed

text \<open>
  C10. \<open>processDonations\<close> calls \<open>toDate()\<close> on the incoming date and on the stored
  date with no type guard. It returns a result whenever every present date is a store
  timestamp; on two donations of one donor whose dates are plain non-empty strings, or
  plain non-zero numbers, the comparison raises a TypeError.
\<close>

theorem processDonations_total_on_timestamps:
  "(list_all (\<lambda>d. date d = Null \<or> is_timestamp (date d)) ds \<longrightarrow>
      (\<exists>out. processDonations ds = Inr out)) \<and>
   (s1 \<noteq> [] \<and> s2 \<noteq> [] \<longrightarrow>
      processDonations
        [\<lparr>doc_id = i1, donor = n, amount = a1, date = Str s1\<rparr>,
         \<lparr>doc_id = i2, donor = n, amount = a2, date = Str s2\<rparr>] = Inl TypeError) \<and>
   (k1 \<noteq> 0 \<and> k2 \<noteq> 0 \<longrightarrow>
      processDonations
        [\<lparr>doc_id = i1, donor = n, amount = a1, date = Num k1\<rparr>,
         \<lparr>doc_id = i2, donor = n, amount = a2, date = Num k2\<rparr>] = Inl TypeError)"
proof (intro conjI impI)
  assume "list_all (\<lambda>d. date d = Null \<or> is_timestamp (date d)) ds"
  then have "list_all (\<lambda>d. date_ok (date d)) ds" by (simp add: date_ok_def)
  from processDonations_ok[OF this] show "\<exists>out. processDonations ds = Inr out" by blast
next
  assume "s1 \<noteq> [] \<and> s2 \<noteq> []"
  then show "processDonations
        [\<lparr>doc_id = i1, donor = n, amount = a1, date = Str s1\<rparr>,
         \<lparr>doc_id = i2, donor = n, amount = a2, date = Str s2\<rparr>] = Inl TypeError"
    by (simp add: agg_defs)
next
  assume "k1 \<noteq> 0 \<and> k2 \<noteq> 0"
  then show "processDonations
        [\<lparr>doc_id = i1, donor = n, amount = a1, date = Num k1\<rparr>,
         \<lparr>doc_id = i2, donor = n, amount = a2, date = Num k2\<rparr>] = Inl TypeError"
    by (simp add: agg_defs)
qed

theorem processDonations_total_on_timestamps_witness:
  "(\<exists>out. processDonations
      [\<lparr>doc_id = ''d1'', donor = ''A'', amount = Number 100, date = Timestamp 20 0\<rparr>,
       \<lparr>doc_id = ''d2'', donor = ''A'', amount = Number 50, date = Null\<rparr>] = Inr out) \<and>
   processDonations
     [\<lparr>doc_id = ''d1'', donor = ''A'', amount = Number 100, date = Str ''2024-01-01''\<rparr>,
      \<lparr>doc_id = ''d2'', donor = ''A'', amount = Number 50, date = Str ''2024-02-01''\<rparr>] = Inl TypeError \<and>
   processDonations
     [\<lparr>doc_id = ''d1'', donor = ''A'', amount = Number 100, date = Num 1704067200000\<rparr>,
      \<lparr>doc_id = ''d2'', donor = ''A'', amount = Number 50, date = Num 1706745600000\<rparr>] = Inl TypeError"
proof -
  have a: "\<exists>out. processDonations
      [\<lparr>doc_id = ''d1'', donor = ''A'', amount = Number 100, date = Timestamp 20 0\<rparr>,
       \<lparr>doc_id = ''d2'', donor = ''A'', amount = Number 50, date = Null\<rparr>] = Inr out"
    using processDonations_total_on_timestamps
      [of "[\<lparr>doc_id = ''d1'', donor = ''A'', amount = Number 100, date = Timestamp 20 0\<rparr>,
            \<lparr>doc_id = ''d2'', donor = ''A'', amount = Number 50, date = Null\<rparr>]"]
    by simp
  have b: "processDonations
     [\<lparr>doc_id = ''d1'', donor = ''A'', amount = Number 100, date = Str ''2024-01-01''\<rparr>,
      \<lparr>doc_id = ''d2'', donor = ''A'', amount = Number 50, date = Str ''2024-02-01''\<rparr>] = Inl TypeError"
    using processDonations_total_on_timestamps
      [of "[]" "''2024-01-01''" "''2024-02-01''" "''d1''" "''A''" "Number 100" "''d2''" "Number 50"]
    by simp
  have c: "processDonations
     [\<lparr>doc_id = ''d1'', donor = ''A'', amount = Number 100, date = Num 1704067200000\<rparr>,
      \<lparr>doc_id = ''d2'', donor = ''A'', amount = Number 50, date = Num 1706745600000\<rparr>] = Inl TypeError"
    using processDonations_total_on_timestamps
      [of "[]" "[]" "[]" "''d1''" "''A''" "Number 100" "''d2''" "Number 50" 1704067200000 1706745600000]
    by simp
  show ?thesis using a b c by blast
qed

section \<open>Properties of the paginated fetch\<close>

subsection \<open>The store's order\<close>

lemma value_key_inj: "value_key a = value_key b \<Longrightarrow> a = b"
  by (cases a; cases b) simp_all

lemma value_less_irrefl [simp]: "\<not> value_less a a"
  by (simp add: value_less_def)

lemma value_less_trans: "value_less a b \<Longrightarrow> value_less b c \<Longrightarrow> value_less a c"
  unfolding value_less_def by (rule less_trans)

lemma value_less_asym: "value_less a b \<Longrightarrow> \<not> value_less b a"
  unfolding value_less_def by simp

lemma value_less_total: "a \<noteq> b \<Longrightarrow> value_less a b \<or> value_less b a"
  unfolding value_less_def using value_key_inj[of a b] by (metis linorder_neqE)

lemma value_less_Str [simp]: "value_less (Str s) (Str t) = (s < t)"
  by (simp add: value_less_def)

lemma ordered_before_irrefl [simp]: "\<not> ordered_before os a a"
  by (induction os) auto

lemma ordered_before_asym: "ordered_before os a b \<Longrightarrow> \<not> ordered_before os b a"
proof (induction os)
  case Nil
  then show ?case by simp
next
  case (Cons p os)
  obtain f dir where p: "p = (f, dir)" by (cases p)
  show ?case
  proof (cases "field_value f a = field_value f b")
    case True
    then show ?thesis using Cons p by simp
  next
    case False
    then show ?thesis using Cons.prems p
      by (cases dir) (auto dest: value_less_asym)
  qed
qed

lemma ordered_before_negtrans:
  "ordered_before os c a \<Longrightarrow> ordered_before os b a \<or> ordered_before os c b"
proof (induction os)
  case Nil
  then show ?case by simp
next
  case (Cons p os)
  obtain f dir where p: "p = (f, dir)" by (cases p)
  let ?a = "field_value f a" and ?b = "field_value f b" and ?c = "field_value f c"
  define lt where "lt x y = (case dir of Asc \<Rightarrow> value_less x y | Desc \<Rightarrow> value_less y x)" for x y
  have lt_total: "x \<noteq> y \<Longrightarrow> lt x y \<or> lt y x" for x y
    using value_less_total[of x y] by (cases dir) (auto simp: lt_def)
  have lt_trans: "lt x y \<Longrightarrow> lt y z \<Longrightarrow> lt x z" for x y z
    by (cases dir) (auto simp: lt_def intro: value_less_trans)
  have unf: "ordered_before (p # os) x y =
      (if field_value f x = field_value f y then ordered_before os x y
       else lt (field_value f x) (field_value f y))" for x y
    by (simp add: p lt_def)
  show ?case
  proof (cases "?c = ?a")
    case ca: True
    then have rest: "ordered_before os c a" using Cons.prems unf by simp
    show ?thesis
    proof (cases "?b = ?a")
      case True
      then show ?thesis using Cons.IH[OF rest] ca unf by simp
    next
      case False
      then show ?thesis using lt_total[OF False] ca unf by auto
    qed
  next
    case ca: False
    then have l: "lt ?c ?a" using Cons.prems unf by simp
    show ?thesis
    proof (cases "?b = ?a")
      case True
      then show ?thesis using l ca unf by simp
    next
      case ba: False
      show ?thesis
      proof (cases "?b = ?c")
        case True
        then show ?thesis using l ba unf by simp
      next
        case bc: False
        from lt_total[OF ba] show ?thesis
        proof
          assume "lt ?b ?a"
          then show ?thesis using ba unf by simp
        next
          assume "lt ?a ?b"
          then have "lt ?c ?b" using l lt_trans by blast
          then show ?thesis using bc unf by auto
        qed
      qed
    qed
  qed
qed

lemma ordered_before_total:
  "(F_name, dir) \<in> set os \<Longrightarrow> doc_id a \<noteq> doc_id b \<Longrightarrow>
   ordered_before os a b \<or> ordered_before os b a"
proof (induction os)
  case Nil
  then show ?case by simp
next
  case (Cons p os)
  obtain f d where p: "p = (f, d)" by (cases p)
  show ?case
  proof (cases "field_value f a = field_value f b")
    case True
    then have "f \<noteq> F_name" using Cons.prems(2) by auto
    then have "(F_name, dir) \<in> set os" using Cons.prems(1) p by auto
    then show ?thesis using Cons.IH Cons.prems(2) True p by simp
  next
    case False
    then show ?thesis using value_less_total[OF False] p by (cases d) auto
  qed
qed

lemma sorted_store_sort:
  "sorted_wrt (\<lambda>a b. \<not> ordered_before os b a) (store_sort os xs)"
  unfolding store_sort_def
proof (rule sorted_sort_by)
  show "\<not> ordered_before os b a \<or> \<not> ordered_before os a b" for a b
    using ordered_before_asym by blast
  show "\<not> ordered_before os b a \<Longrightarrow> \<not> ordered_before os c b \<Longrightarrow> \<not> ordered_before os c a" for a b c
    using ordered_before_negtrans by blast
qed

lemma sorted_wrt_strict:
  assumes "sorted_wrt (\<lambda>a b. \<not> ordered_before os b a) xs" "distinct (map doc_id xs)"
    "(F_name, dir) \<in> set os"
  shows "sorted_wrt (ordered_before os) xs"
  using assms(1,2)
proof (induction xs)
  case Nil
  show ?case by simp
next
  case (Cons x xs)
  have "ordered_before os x y" if "y \<in> set xs" for y
  proof -
    have "doc_id x \<noteq> doc_id y" using Cons.prems(2) that by auto
    moreover have "\<not> ordered_before os y x" using Cons.prems(1) that by simp
    ultimately show ?thesis using ordered_before_total[OF assms(3)] by blast
  qed
  then show ?case using Cons by simp
qed

lemma filter_after_cursor:
  assumes "sorted_wrt (ordered_before os) (xs @ c # ys)"
  shows "filter (ordered_before os c) (xs @ c # ys) = ys"
proof -
  from assms have a: "\<forall>x\<in>set xs. ordered_before os x c" and b: "\<forall>y\<in>set ys. ordered_before os c y"
    by (auto simp: sorted_wrt_append)
  have "filter (ordered_before os c) xs = []"
    using a ordered_before_asym by (auto simp: filter_empty_conv)
  moreover have "filter (ordered_before os c) ys = ys"
    using b by (simp add: filter_id_conv)
  ultimately show ?thesis by simp
qed

lemma set_store_sort [simp]: "set (store_sort os xs) = set xs"
  by (simp add: store_sort_def set_sort_by)

lemma mset_store_sort [simp]: "mset (store_sort os xs) = mset xs"
  by (simp add: store_sort_def mset_sort_by)

lemma length_store_sort [simp]: "length (store_sort os xs) = length xs"
  by (simp add: store_sort_def length_sort_by)

lemma distinct_ids_store_sort:
  "distinct (map doc_id (store_sort os xs)) = distinct (map doc_id xs)"
  by (simp add: store_sort_def distinct_map_sort_by)

lemma strictly_sorted_store_sort:
  assumes "distinct (map doc_id xs)" "(F_name, dir) \<in> set os"
  shows "sorted_wrt (ordered_before os) (store_sort os xs)"
  using sorted_store_sort[of os xs] assms
  by (intro sorted_wrt_strict[where dir = dir]) (simp_all add: distinct_ids_store_sort)

subsection \<open>The three queries\<close>

lemma run_query_first:
  "run_query [OrderBy F_date Desc, Limit n] docs = take n (store_sort default_order docs)"
  by (simp add: run_query_def order_of_def matches_def default_order_def Let_def)

lemma run_query_next:
  "run_query [OrderBy F_date Desc, StartAfter c, Limit n] docs
     = take n (filter (ordered_before default_order c) (store_sort default_order docs))"
  by (simp add: run_query_def order_of_def matches_def default_order_def Let_def)

lemma run_query_search:
  "run_query [Where F_donor Ge (Str t), Where F_donor Le (Str u),
              OrderBy F_donor Asc, OrderBy F_date Desc, Limit n] docs
     = take n (store_sort search_order (filter (\<lambda>d. \<not> donor d < t \<and> \<not> u < donor d) docs))"
proof -
  let ?q = "[Where F_donor Ge (Str t), Where F_donor Le (Str u),
             OrderBy F_donor Asc, OrderBy F_date Desc, Limit n]"
  have "matches ?q = (\<lambda>d. \<not> donor d < t \<and> \<not> u < donor d)"
    by (rule ext) (simp add: matches_def)
  then show ?thesis
    by (simp add: run_query_def order_of_def search_order_def Let_def)
qed

subsection \<open>What a fetch writes\<close>

lemma fetchDonors_fields:
  assumes "getDocs db (build_query st b) = Inr page"
  shows "allDonations (fetchDonors db b st) = (if b then page else allDonations st @ page)"
    and "lastVisible (fetchDonors db b st) = last_doc page"
    and "hasMore (fetchDonors db b st) = (length page = ITEMS_PER_PAGE)"
    and "loading (fetchDonors db b st) = False"
    and "searchTerm (fetchDonors db b st) = searchTerm st"
  using assms by (simp_all add: fetchDonors_def Let_def split: sum.splits)

lemma fetchDonors_unreachable:
  "fetchDonors Unreachable b st =
     st\<lparr>error := Some ''Failed to load donors. Please try again later.'', loading := False\<rparr>"
  by (simp add: fetchDonors_def getDocs_def)

subsection \<open>Default-mode pagination\<close>

lemma build_query_first:
  "searchTerm st = [] \<Longrightarrow> build_query st True = [OrderBy F_date Desc, Limit ITEMS_PER_PAGE]"
  by (simp add: build_query_def split: option.splits)

lemma build_query_next:
  "searchTerm st = [] \<Longrightarrow> lastVisible st = Some c \<Longrightarrow>
   build_query st False = [OrderBy F_date Desc, StartAfter c, Limit ITEMS_PER_PAGE]"
  by (simp add: build_query_def)

lemma page_facts:
  fixes R :: "Donation list"
  assumes "0 < n"
  shows "length (take n R) = n \<Longrightarrow> take n R \<noteq> []"
    and "length (take n R) \<noteq> n \<Longrightarrow> drop n R = []"
  using assms by auto

lemma default_inv_first:
  assumes "S = store_sort default_order docs"
  shows "default_inv S (fetchDonors (Collection docs) True initial_state) (drop ITEMS_PER_PAGE S)"
proof -
  let ?st = "fetchDonors (Collection docs) True initial_state"
  let ?page = "take ITEMS_PER_PAGE S"
  have pos: "0 < ITEMS_PER_PAGE" by (simp add: ITEMS_PER_PAGE_def)
  have q: "getDocs (Collection docs) (build_query initial_state True) = Inr ?page"
    by (simp add: getDocs_def build_query_first initial_state_def run_query_first assms)
  note f = fetchDonors_fields[OF q]
  have a: "searchTerm ?st = []" using f(5) by (simp add: initial_state_def)
  have b: "\<not> loading ?st" using f(4) by simp
  have c: "S = allDonations ?st @ drop ITEMS_PER_PAGE S" using f(1) by simp
  have d: "allDonations ?st \<noteq> [] \<and> lastVisible ?st = Some (last (allDonations ?st))" if "hasMore ?st"
  proof -
    from that f(3) have "length ?page = ITEMS_PER_PAGE" by simp
    then have "?page \<noteq> []" by (rule page_facts(1)[OF pos])
    then show ?thesis using f(1,2) by (simp add: last_doc_def)
  qed
  have e: "drop ITEMS_PER_PAGE S = []" if "\<not> hasMore ?st"
  proof -
    from that f(3) have "length ?page \<noteq> ITEMS_PER_PAGE" by simp
    then show ?thesis by (rule page_facts(2)[OF pos])
  qed
  show ?thesis unfolding default_inv_def using a b c d e by blast
qed

lemma default_inv_loadMore:
  assumes inv: "default_inv S st R" and S: "S = store_sort default_order docs"
    and dist: "distinct (map doc_id docs)"
  shows "default_inv S (loadMore (Collection docs) st)
           (if hasMore st then drop ITEMS_PER_PAGE R else R) \<and>
         (hasMore st \<longrightarrow> hasMore (loadMore (Collection docs) st) = (ITEMS_PER_PAGE \<le> length R))"
proof (cases "hasMore st")
  case False
  then show ?thesis using inv by (simp add: loadMore_def)
next
  case True
  let ?before = "st\<lparr>currentPage := currentPage st + 1\<rparr>"
  let ?st = "fetchDonors (Collection docs) False ?before"
  let ?page = "take ITEMS_PER_PAGE R"
  have pos: "0 < ITEMS_PER_PAGE" by (simp add: ITEMS_PER_PAGE_def)
  from inv True have tm: "searchTerm st = []" and nl: "\<not> loading st"
    and spl: "S = allDonations st @ R" and ne: "allDonations st \<noteq> []"
    and cur: "lastVisible st = Some (last (allDonations st))"
    by (simp_all add: default_inv_def)
  let ?c = "last (allDonations st)"
  have step: "loadMore (Collection docs) st = ?st" using True nl by (simp add: loadMore_def)
  have sorted: "sorted_wrt (ordered_before default_order) S"
    unfolding S by (rule strictly_sorted_store_sort[OF dist, where dir = Desc])
      (simp add: default_order_def)
  have S': "S = butlast (allDonations st) @ ?c # R" using spl ne by simp
  have rest: "filter (ordered_before default_order ?c) S = R"
    using filter_after_cursor[of default_order "butlast (allDonations st)" ?c R] sorted S' by simp
  have q: "getDocs (Collection docs) (build_query ?before False) = Inr ?page"
    using tm cur rest by (simp add: getDocs_def build_query_next run_query_next S[symmetric])
  note f = fetchDonors_fields[OF q]
  have a: "searchTerm ?st = []" using f(5) tm by simp
  have b: "\<not> loading ?st" using f(4) by simp
  have c: "S = allDonations ?st @ drop ITEMS_PER_PAGE R" using f(1) spl by simp
  have d: "allDonations ?st \<noteq> [] \<and> lastVisible ?st = Some (last (allDonations ?st))" if "hasMore ?st"
  proof -
    from that f(3) have "length ?page = ITEMS_PER_PAGE" by simp
    then have "?page \<noteq> []" by (rule page_facts(1)[OF pos])
    then show ?thesis using f(1,2) by (simp add: last_doc_def)
  qed
  have e: "drop ITEMS_PER_PAGE R = []" if "\<not> hasMore ?st"
  proof -
    from that f(3) have "length ?page \<noteq> ITEMS_PER_PAGE" by simp
    then show ?thesis by (rule page_facts(2)[OF pos])
  qed
  have "default_inv S ?st (drop ITEMS_PER_PAGE R)"
    unfolding default_inv_def using a b c d e by blast
  moreover have "hasMore ?st = (ITEMS_PER_PAGE \<le> length R)" using f(3) by auto
  ultimately show ?thesis using True step by simp
qed

lemma default_inv_iterate:
  assumes S: "S = store_sort default_order docs" and dist: "distinct (map doc_id docs)"
  shows "\<exists>R. default_inv S ((loadMore (Collection docs) ^^ k)
                 (fetchDonors (Collection docs) True initial_state)) R"
proof (induction k)
  case 0
  show ?case using default_inv_first[OF S] by auto
next
  case (Suc k)
  then obtain R where "default_inv S ((loadMore (Collection docs) ^^ k)
                 (fetchDonors (Collection docs) True initial_state)) R" by blast
  from default_inv_loadMore[OF this S dist] show ?case by auto
qed

lemma load_all_default:
  assumes S: "S = store_sort default_order docs" and dist: "distinct (map doc_id docs)"
    and inv: "default_inv S st R" and fuel: "length R div ITEMS_PER_PAGE < k"
  shows "\<exists>st'. load_all k (Collection docs) st = Some st' \<and> allDonations st' = S \<and> \<not> hasMore st'"
  using inv fuel
proof (induction k arbitrary: st R)
  case 0
  then show ?case by simp
next
  case (Suc k)
  show ?case
  proof (cases "hasMore st")
    case False
    then have "R = []" using Suc.prems(1) by (simp add: default_inv_def)
    then have "allDonations st = S" using Suc.prems(1) by (simp add: default_inv_def)
    then show ?thesis using False by simp
  next
    case True
    let ?st1 = "loadMore (Collection docs) st"
    let ?R1 = "drop ITEMS_PER_PAGE R"
    have inv1: "default_inv S ?st1 ?R1"
      and h: "hasMore ?st1 = (ITEMS_PER_PAGE \<le> length R)"
      using default_inv_loadMore[OF Suc.prems(1) S dist] True by simp_all
    show ?thesis
    proof (cases "hasMore ?st1")
      case False
      then have "?R1 = []" using inv1 by (simp add: default_inv_def)
      then have all: "allDonations ?st1 = S" using inv1 by (simp add: default_inv_def)
      have "load_all k (Collection docs) ?st1 = Some ?st1" using False by (cases k) simp_all
      then show ?thesis using True False all by simp
    next
      case h1: True
      have pos: "0 < ITEMS_PER_PAGE" by (simp add: ITEMS_PER_PAGE_def)
      have full: "ITEMS_PER_PAGE \<le> length R" using h h1 by simp
      have "length R div ITEMS_PER_PAGE = Suc (length ?R1 div ITEMS_PER_PAGE)"
        using le_div_geq[OF pos full] by simp
      then have "length ?R1 div ITEMS_PER_PAGE < k" using Suc.prems(2) by simp
      from Suc.IH[OF inv1 this] show ?thesis using True by simp
    qed
  qed
qed

lemma default_mode_complete:
  assumes dist: "distinct (map doc_id docs)" and fuel: "length docs div ITEMS_PER_PAGE < k"
  shows "\<exists>st'. load_all k (Collection docs) (fetchDonors (Collection docs) True initial_state) = Some st'
           \<and> \<not> hasMore st' \<and> allDonations st' = store_sort default_order docs
           \<and> distinct (map doc_id (allDonations st')) \<and> mset (allDonations st') = mset docs"
proof -
  let ?S = "store_sort default_order docs"
  have pos: "0 < ITEMS_PER_PAGE" by (simp add: ITEMS_PER_PAGE_def)
  have inv: "default_inv ?S (fetchDonors (Collection docs) True initial_state) (drop ITEMS_PER_PAGE ?S)"
    by (rule default_inv_first) simp
  have "length (drop ITEMS_PER_PAGE ?S) \<le> length docs" by simp
  then have "length (drop ITEMS_PER_PAGE ?S) div ITEMS_PER_PAGE \<le> length docs div ITEMS_PER_PAGE"
    by (rule div_le_mono)
  then have "length (drop ITEMS_PER_PAGE ?S) div ITEMS_PER_PAGE < k" using fuel by linarith
  from load_all_default[OF refl dist inv this] obtain st' where
    "load_all k (Collection docs) (fetchDonors (Collection docs) True initial_state) = Some st'"
    "allDonations st' = ?S" "\<not> hasMore st'" by blast
  then show ?thesis using dist by (auto simp: distinct_ids_store_sort)
qed

subsection \<open>Search mode\<close>

lemma build_query_search:
  "searchTerm st \<noteq> [] \<Longrightarrow>
   build_query st b =
     [Where F_donor Ge (Str (searchTerm st)), Where F_donor Le (Str (searchTerm st @ uf8ff)),
      OrderBy F_donor Asc, OrderBy F_date Desc, Limit ITEMS_PER_PAGE]"
  by (simp add: build_query_def)

lemma getDocs_search:
  "searchTerm st \<noteq> [] \<Longrightarrow>
   getDocs (Collection docs) (build_query st b) = Inr (search_page (searchTerm st) docs)"
  by (simp add: getDocs_def build_query_search run_query_search search_page_def)

lemma search_loadMore:
  assumes "searchTerm st \<noteq> []" "\<not> loading st" "hasMore st"
  shows "allDonations (loadMore (Collection docs) st)
           = allDonations st @ search_page (searchTerm st) docs"
    and "hasMore (loadMore (Collection docs) st)
           = (length (search_page (searchTerm st) docs) = ITEMS_PER_PAGE)"
    and "searchTerm (loadMore (Collection docs) st) = searchTerm st"
    and "\<not> loading (loadMore (Collection docs) st)"
proof -
  let ?before = "st\<lparr>currentPage := currentPage st + 1\<rparr>"
  have step: "loadMore (Collection docs) st = fetchDonors (Collection docs) False ?before"
    using assms by (simp add: loadMore_def)
  have q: "getDocs (Collection docs) (build_query ?before False)
             = Inr (search_page (searchTerm st) docs)"
    using getDocs_search[of ?before docs False] assms(1) by simp
  note f = fetchDonors_fields[OF q]
  show "allDonations (loadMore (Collection docs) st)
           = allDonations st @ search_page (searchTerm st) docs"
    using f(1) step by simp
  show "hasMore (loadMore (Collection docs) st)
           = (length (search_page (searchTerm st) docs) = ITEMS_PER_PAGE)"
    using f(3) step by simp
  show "searchTerm (loadMore (Collection docs) st) = searchTerm st"
    using f(5) step by simp
  show "\<not> loading (loadMore (Collection docs) st)"
    using f(4) step by simp
qed

lemma search_handleSearch:
  assumes "searchTerm st \<noteq> []"
  shows "allDonations (handleSearch (Collection docs) st) = search_page (searchTerm st) docs"
    and "hasMore (handleSearch (Collection docs) st)
           = (length (search_page (searchTerm st) docs) = ITEMS_PER_PAGE)"
    and "searchTerm (handleSearch (Collection docs) st) = searchTerm st"
    and "\<not> loading (handleSearch (Collection docs) st)"
proof -
  let ?before = "st\<lparr>isSearching := True, currentPage := 1\<rparr>"
  have q: "getDocs (Collection docs) (build_query ?before True)
             = Inr (search_page (searchTerm st) docs)"
    using getDocs_search[of ?before docs True] assms(1) by simp
  note f = fetchDonors_fields[OF q]
  show "allDonations (handleSearch (Collection docs) st) = search_page (searchTerm st) docs"
    using f(1) by (simp add: handleSearch_def)
  show "hasMore (handleSearch (Collection docs) st)
           = (length (search_page (searchTerm st) docs) = ITEMS_PER_PAGE)"
    using f(3) by (simp add: handleSearch_def)
  show "searchTerm (handleSearch (Collection docs) st) = searchTerm st"
    using f(5) by (simp add: handleSearch_def)
  show "\<not> loading (handleSearch (Collection docs) st)"
    using f(4) by (simp add: handleSearch_def)
qed

lemma search_load_all_diverges:
  assumes "searchTerm st \<noteq> []" "\<not> loading st" "hasMore st"
    "length (search_page (searchTerm st) docs) = ITEMS_PER_PAGE"
  shows "load_all k (Collection docs) st = None"
  using assms
proof (induction k arbitrary: st)
  case 0
  then show ?case by simp
next
  case (Suc k)
  let ?st1 = "loadMore (Collection docs) st"
  note l = search_loadMore[OF Suc.prems(1,2,3), of docs]
  have "load_all k (Collection docs) ?st1 = None"
    using l Suc.prems by (intro Suc.IH) simp_all
  then show ?case using Suc.prems(3) by simp
qed

lemma default_first_page_ten: "store_sort default_order ten_donations = rev ten_donations"
  by code_simp

lemma search_first_page_ten: "store_sort search_order ten_donations = rev ten_donations"
  by code_simp

lemma search_page_ten: "search_page ''A'' ten_donations = rev ten_donations"
proof -
  have "filter (\<lambda>d. \<not> donor d < ''A'' \<and> \<not> ''A'' @ uf8ff < donor d) ten_donations = ten_donations"
    by (simp add: ten_donations_def donation_A_def uf8ff_def)
  moreover have "length ten_donations = ITEMS_PER_PAGE"
    by (simp add: ten_donations_def ITEMS_PER_PAGE_def)
  ultimately show ?thesis by (simp add: search_page_def search_first_page_ten)
qed

text \<open>
  C1. Pagination completeness fails in search mode. With ten donations of donor A in
  the collection and the search term A, the search returns a full page, so "Load more"
  is offered; pressing it runs the same query again (the search query has no
  \<open>startAfter\<close>), appends the same ten records a second time, and leaves \<open>hasMore\<close>
  true, so that loading until \<open>hasMore\<close> is false never ends, whatever the fuel.
\<close>

theorem search_load_more_repeats_page:
  "allDonations (handleSearch (Collection ten_donations) searching_A) = rev ten_donations \<and>
   hasMore (handleSearch (Collection ten_donations) searching_A) \<and>
   allDonations (loadMore (Collection ten_donations)
                  (handleSearch (Collection ten_donations) searching_A))
     = rev ten_donations @ rev ten_donations \<and>
   \<not> distinct (map doc_id (allDonations (loadMore (Collection ten_donations)
                  (handleSearch (Collection ten_donations) searching_A)))) \<and>
   (\<forall>k. load_all k (Collection ten_donations)
          (handleSearch (Collection ten_donations) searching_A) = None)"
proof -
  let ?db = "Collection ten_donations"
  let ?st1 = "handleSearch ?db searching_A"
  let ?page = "rev ten_donations"
  have t: "searchTerm searching_A = ''A''" "searchTerm searching_A \<noteq> []"
    by (simp_all add: searching_A_def initial_state_def)
  have len: "length ?page = ITEMS_PER_PAGE"
    by (simp add: ten_donations_def ITEMS_PER_PAGE_def)
  note h = search_handleSearch[OF t(2), of ten_donations]
  have a: "allDonations ?st1 = ?page" using h(1) t(1) search_page_ten by simp
  have b: "hasMore ?st1" using h(2) t(1) search_page_ten len by simp
  have c: "searchTerm ?st1 = ''A''" using h(3) t(1) by simp
  have c': "searchTerm ?st1 \<noteq> []" using c by simp
  have d: "\<not> loading ?st1" using h(4) .
  have e: "allDonations (loadMore ?db ?st1) = ?page @ ?page"
    using search_loadMore(1)[OF c' d b, of ten_donations] a c search_page_ten by simp
  have f: "\<not> distinct (map doc_id (?page @ ?page))"
    by (simp add: ten_donations_def)
  have g: "load_all k ?db ?st1 = None" for k
    using search_load_all_diverges[OF c' d b] c search_page_ten len by simp
  show ?thesis using a b e f g by simp
qed

lemma default_order_unfold:
  "ordered_before default_order a b =
     (value_less (date b) (date a) \<or> (date a = date b \<and> doc_id b < doc_id a))"
  by (auto simp: default_order_def)

text \<open>
  C3 (as amended). In Default mode the concatenation of the pages fetched so far is
  ordered by \<open>date\<close> descending; the query names no tie-break, and the store orders
  records with equal \<open>date\<close> by document id in the direction of the last sort field,
  that is descending.
\<close>

theorem default_pages_ordered:
  assumes "distinct (map doc_id docs)"
  shows "sorted_wrt (\<lambda>a b. value_less (date b) (date a) \<or> (date a = date b \<and> doc_id b < doc_id a))
           (allDonations ((loadMore (Collection docs) ^^ k)
              (fetchDonors (Collection docs) True initial_state)))"
proof -
  let ?S = "store_sort default_order docs"
  let ?st = "(loadMore (Collection docs) ^^ k) (fetchDonors (Collection docs) True initial_state)"
  from default_inv_iterate[OF refl assms, of k] obtain R where "default_inv ?S ?st R" by blast
  then have spl: "?S = allDonations ?st @ R" by (simp add: default_inv_def)
  have "sorted_wrt (ordered_before default_order) ?S"
    by (rule strictly_sorted_store_sort[OF assms, where dir = Desc]) (simp add: default_order_def)
  then have "sorted_wrt (ordered_before default_order) (allDonations ?st)"
    unfolding spl by (simp add: sorted_wrt_append)
  then show ?thesis by (simp add: default_order_unfold[abs_def])
qed

theorem default_pages_ordered_witness:
  "distinct (map doc_id [donation_A ''a'' 5, donation_A ''b'' 5, donation_A ''c'' 7]) \<and>
   sorted_wrt (\<lambda>a b. value_less (date b) (date a) \<or> (date a = date b \<and> doc_id b < doc_id a))
     (allDonations ((loadMore (Collection [donation_A ''a'' 5, donation_A ''b'' 5, donation_A ''c'' 7]) ^^ 1)
        (fetchDonors (Collection [donation_A ''a'' 5, donation_A ''b'' 5, donation_A ''c'' 7]) True initial_state)))"
proof -
  have d: "distinct (map doc_id [donation_A ''a'' 5, donation_A ''b'' 5, donation_A ''c'' 7])"
    by (simp add: donation_A_def)
  from default_pages_ordered[OF d, of 1] d show ?thesis by simp
qed

theorem ties_descending_id_counterexample:
  "allDonations (fetchDonors (Collection [donation_A ''a'' 5, donation_A ''b'' 5]) True initial_state)
     = [donation_A ''b'' 5, donation_A ''a'' 5] \<and>
   date (donation_A ''b'' 5) = date (donation_A ''a'' 5) \<and>
   doc_id (donation_A ''a'' 5) < doc_id (donation_A ''b'' 5)"
proof -
  have q: "getDocs (Collection [donation_A ''a'' 5, donation_A ''b'' 5]) (build_query initial_state True)
             = Inr [donation_A ''b'' 5, donation_A ''a'' 5]"
    by (simp add: getDocs_def build_query_def initial_state_def run_query_first default_order_def
        store_sort_def sort_by_def donation_A_def ITEMS_PER_PAGE_def)
  from fetchDonors_fields(1)[OF q] show ?thesis by (simp add: donation_A_def)
qed

subsection \<open>Prefix range\<close>

lemma range_prefix:
  fixes s t :: string
  shows "\<not> s < t \<Longrightarrow> \<not> t @ x < s \<Longrightarrow> prefix t s"
proof (induction t arbitrary: s)
  case Nil
  show ?case by simp
next
  case (Cons a t)
  show ?case
  proof (cases s)
    case Nil
    then show ?thesis using Cons.prems(1) by simp
  next
    case (Cons b s')
    from Cons.prems(1) Cons have 1: "\<not> b < a" and 2: "b = a \<longrightarrow> \<not> s' < t" by auto
    from Cons.prems(2) Cons have 3: "\<not> a < b" and 4: "a = b \<longrightarrow> \<not> t @ x < s'" by auto
    have ab: "a = b" using 1 3 by simp
    then have "prefix t s'" using 2 4 Cons.IH by blast
    then show ?thesis using ab Cons by simp
  qed
qed

lemma search_page_prefix: "d \<in> set (search_page t docs) \<Longrightarrow> prefix t (donor d)"
proof -
  assume "d \<in> set (search_page t docs)"
  then have "d \<in> set (store_sort search_order
       (filter (\<lambda>d. \<not> donor d < t \<and> \<not> t @ uf8ff < donor d) docs))"
    unfolding search_page_def by (rule in_set_takeD)
  then have "\<not> donor d < t \<and> \<not> t @ uf8ff < donor d" by simp
  then show ?thesis using range_prefix by blast
qed

lemma search_order_unfold:
  "\<not> ordered_before search_order y x \<Longrightarrow>
   donor x \<le> donor y \<and> (donor x = donor y \<longrightarrow> \<not> value_less (date x) (date y))"
  by (auto simp: search_order_def split: if_splits)

lemma search_page_sorted:
  "sorted_wrt (\<lambda>x y. donor x \<le> donor y \<and> (donor x = donor y \<longrightarrow> \<not> value_less (date x) (date y)))
     (search_page t docs)"
proof -
  let ?xs = "filter (\<lambda>d. \<not> donor d < t \<and> \<not> t @ uf8ff < donor d) docs"
  have "sorted_wrt (\<lambda>x y. \<not> ordered_before search_order y x) (store_sort search_order ?xs)"
    by (rule sorted_store_sort)
  then have "sorted_wrt (\<lambda>x y. \<not> ordered_before search_order y x) (search_page t docs)"
    unfolding search_page_def by (rule sorted_wrt_take)
  then show ?thesis
    by (rule sorted_wrt_mono_rel[rotated]) (simp add: search_order_unfold)
qed

text \<open>
  C4. In search mode every record the query returns has a \<open>donor\<close> that starts with
  the search term (bytewise, so case-sensitively): no record whose \<open>donor\<close> does not
  start with the term is loaded.
\<close>

theorem search_results_start_with_term:
  assumes "searchTerm st \<noteq> []" "getDocs db (build_query st b) = Inr page"
  shows "list_all (\<lambda>d. prefix (searchTerm st) (donor d)) page \<and>
         list_all (\<lambda>d. prefix (searchTerm st) (donor d)) (allDonations (fetchDonors db True st))"
proof -
  obtain docs where db: "db = Collection docs"
    using assms(2) by (cases db) (simp_all add: getDocs_def)
  have page: "page = search_page (searchTerm st) docs"
    using getDocs_search[OF assms(1), of docs b] assms(2) db by simp
  have "getDocs db (build_query st True) = Inr (search_page (searchTerm st) docs)"
    using getDocs_search[OF assms(1), of docs True] db by simp
  from fetchDonors_fields(1)[OF this]
  have "allDonations (fetchDonors db True st) = search_page (searchTerm st) docs" by simp
  then show ?thesis using page search_page_prefix unfolding list_all_iff by auto
qed

theorem search_results_start_with_term_witness:
  "searchTerm searching_A \<noteq> [] \<and>
   getDocs (Collection [donation_A ''a'' 5, \<lparr>doc_id = ''b'', donor = ''Bo'', amount = Number 1, date = Null\<rparr>])
     (build_query searching_A True) = Inr [donation_A ''a'' 5] \<and>
   list_all (\<lambda>d. prefix (searchTerm searching_A) (donor d)) [donation_A ''a'' 5]"
proof -
  have t: "searchTerm searching_A \<noteq> []" by (simp add: searching_A_def initial_state_def)
  have q: "getDocs (Collection [donation_A ''a'' 5, \<lparr>doc_id = ''b'', donor = ''Bo'', amount = Number 1, date = Null\<rparr>])
     (build_query searching_A True) = Inr [donation_A ''a'' 5]"
    by (simp add: getDocs_def build_query_def searching_A_def initial_state_def run_query_search
        search_order_def store_sort_def sort_by_def donation_A_def ITEMS_PER_PAGE_def uf8ff_def)
  from search_results_start_with_term[OF t q] t q show ?thesis by simp
qed

lemma fetchDonors_error:
  assumes "getDocs db (build_query st b) = Inr page"
  shows "error (fetchDonors db b st) =
           (case processDonations (if b then page else allDonations st @ page) of
              Inl e \<Rightarrow> Some ''Failed to load donors. Please try again later.''
            | Inr r \<Rightarrow> None)"
  using assms by (simp add: fetchDonors_def Let_def split: sum.splits)

lemma limit_of_build_query: "limit_of (build_query st b) = Some ITEMS_PER_PAGE"
  by (simp add: build_query_def split: option.splits)

lemma length_run_query: "limit_of q = Some n \<Longrightarrow> length (run_query q docs) \<le> n"
  by (simp add: run_query_def Let_def)

lemma run_query_empty: "run_query q [] = []"
  by (simp add: run_query_def Let_def store_sort_def sort_by_def split: option.splits)

text \<open>
  C5 (as amended). The code has no InvalidCursor error. A fetch in search mode builds
  its query from the search term alone, so a cursor left over from Default mode
  changes nothing: when the store is reachable the query succeeds, and the page it
  returns is ordered by \<open>donor\<close> ascending, then \<open>date\<close> descending, and holds only
  records whose \<open>donor\<close> starts with the term.
\<close>

theorem search_fetch_ignores_cursor:
  assumes "searchTerm st \<noteq> []"
  shows "build_query (st\<lparr>lastVisible := c\<rparr>) b = build_query (st\<lparr>lastVisible := None\<rparr>) True \<and>
         (\<exists>page. getDocs (Collection docs) (build_query (st\<lparr>lastVisible := c\<rparr>) b) = Inr page \<and>
            sorted_wrt (\<lambda>x y. donor x \<le> donor y \<and>
                               (donor x = donor y \<longrightarrow> \<not> value_less (date x) (date y))) page \<and>
            list_all (\<lambda>d. prefix (searchTerm st) (donor d)) page)"
proof -
  have t: "searchTerm (st\<lparr>lastVisible := c\<rparr>) \<noteq> []" using assms by simp
  have same: "build_query (st\<lparr>lastVisible := c\<rparr>) b = build_query (st\<lparr>lastVisible := None\<rparr>) True"
    using assms by (simp add: build_query_def)
  have q: "getDocs (Collection docs) (build_query (st\<lparr>lastVisible := c\<rparr>) b)
             = Inr (search_page (searchTerm st) docs)"
    using getDocs_search[OF t, of docs b] by simp
  have p: "list_all (\<lambda>d. prefix (searchTerm st) (donor d)) (search_page (searchTerm st) docs)"
    unfolding list_all_iff using search_page_prefix by blast
  show ?thesis using same q search_page_sorted[of "searchTerm st" docs] p by blast
qed

theorem search_fetch_ignores_cursor_witness:
  "searchTerm typed_search_state \<noteq> [] \<and>
   build_query (typed_search_state\<lparr>lastVisible := Some (donation_A ''d0'' 1000)\<rparr>) False
     = build_query (typed_search_state\<lparr>lastVisible := None\<rparr>) True \<and>
   (\<exists>page. getDocs (Collection ten_donations)
       (build_query (typed_search_state\<lparr>lastVisible := Some (donation_A ''d0'' 1000)\<rparr>) False) = Inr page \<and>
      list_all (\<lambda>d. prefix (searchTerm typed_search_state) (donor d)) page)"
proof -
  have t: "searchTerm typed_search_state \<noteq> []" by (simp add: typed_search_state_def)
  from search_fetch_ignores_cursor[OF t, of "Some (donation_A ''d0'' 1000)" False ten_donations] t
  show ?thesis by blast
qed

theorem stale_cursor_accepted_counterexample:
  "searchTerm typed_search_state = ''A'' \<and>
   lastVisible typed_search_state = Some (donation_A ''d0'' 1000) \<and>
   hasMore typed_search_state \<and>
   allDonations typed_search_state = rev ten_donations \<and>
   error (loadMore (Collection ten_donations) typed_search_state) = None \<and>
   allDonations (loadMore (Collection ten_donations) typed_search_state)
     = rev ten_donations @ rev ten_donations"
proof -
  let ?db = "Collection ten_donations"
  let ?st0 = "fetchDonors ?db True initial_state"
  have q0: "getDocs ?db (build_query initial_state True) = Inr (rev ten_donations)"
    by (simp add: getDocs_def build_query_first initial_state_def run_query_first
        default_first_page_ten) (simp add: ten_donations_def ITEMS_PER_PAGE_def)
  note f0 = fetchDonors_fields[OF q0]
  have a: "searchTerm typed_search_state = ''A''" by (simp add: typed_search_state_def)
  have b: "lastVisible typed_search_state = Some (donation_A ''d0'' 1000)"
    using f0(2) by (simp add: typed_search_state_def last_doc_def ten_donations_def)
  have c: "hasMore typed_search_state"
    using f0(3) by (simp add: typed_search_state_def ten_donations_def ITEMS_PER_PAGE_def)
  have d: "allDonations typed_search_state = rev ten_donations"
    using f0(1) by (simp add: typed_search_state_def)
  have nl: "\<not> loading typed_search_state" using f0(4) by (simp add: typed_search_state_def)
  have ne: "searchTerm typed_search_state \<noteq> []" using a by simp
  let ?before = "typed_search_state\<lparr>currentPage := currentPage typed_search_state + 1\<rparr>"
  have step: "loadMore ?db typed_search_state = fetchDonors ?db False ?before"
    using nl c by (simp add: loadMore_def)
  have q1: "getDocs ?db (build_query ?before False) = Inr (rev ten_donations)"
    using getDocs_search[of ?before ten_donations False] a
    by (simp add: search_page_ten)
  have e: "allDonations (loadMore ?db typed_search_state) = rev ten_donations @ rev ten_donations"
    using fetchDonors_fields(1)[OF q1] step d by simp
  have ok: "list_all (\<lambda>x. date_ok (date x)) (rev ten_donations @ rev ten_donations)"
    by (simp add: ten_donations_def donation_A_def date_ok_def)
  from processDonations_ok[OF ok] obtain out where
    "processDonations (rev ten_donations @ rev ten_donations) = Inr out" by blast
  then have g: "error (loadMore ?db typed_search_state) = None"
    using fetchDonors_error[OF q1] step d by simp
  show ?thesis using a b c d e g by simp
qed

text \<open>
  C6 (as amended). After a fetch that returned \<open>page\<close>, the cursor \<open>lastVisible\<close> is the
  last record of the page whenever the page is not empty (also when it is shorter than
  the page size) and is absent only for an empty page; \<open>hasMore\<close> holds exactly when
  the page has \<open>ITEMS_PER_PAGE\<close> records; a page never has more. On an empty collection
  the page is empty, the cursor absent and \<open>hasMore\<close> false.
\<close>

theorem fetch_result_shape:
  assumes "getDocs db (build_query st b) = Inr page"
  shows "length page \<le> ITEMS_PER_PAGE \<and>
         lastVisible (fetchDonors db b st) = (if page = [] then None else Some (last page)) \<and>
         hasMore (fetchDonors db b st) = (length page = ITEMS_PER_PAGE) \<and>
         allDonations (fetchDonors db b st) = (if b then page else allDonations st @ page) \<and>
         (db = Collection [] \<longrightarrow>
            page = [] \<and> lastVisible (fetchDonors db b st) = None \<and> \<not> hasMore (fetchDonors db b st))"
proof -
  obtain docs where db: "db = Collection docs"
    using assms by (cases db) (simp_all add: getDocs_def)
  have page: "page = run_query (build_query st b) docs" using assms db by (simp add: getDocs_def)
  have len: "length page \<le> ITEMS_PER_PAGE"
    unfolding page by (rule length_run_query[OF limit_of_build_query])
  note f = fetchDonors_fields[OF assms]
  have lv: "lastVisible (fetchDonors db b st) = (if page = [] then None else Some (last page))"
    using f(2) by (simp add: last_doc_def)
  have empty: "page = [] \<and> lastVisible (fetchDonors db b st) = None \<and> \<not> hasMore (fetchDonors db b st)"
    if "db = Collection []"
  proof -
    from that db page have "page = []" by (simp add: run_query_empty)
    then show ?thesis using lv f(3) by (simp add: ITEMS_PER_PAGE_def)
  qed
  show ?thesis using len lv f(1,3) empty by blast
qed

theorem fetch_result_shape_witness:
  "getDocs (Collection []) (build_query initial_state True) = Inr [] \<and>
   lastVisible (fetchDonors (Collection []) True initial_state) = None \<and>
   \<not> hasMore (fetchDonors (Collection []) True initial_state) \<and>
   allDonations (fetchDonors (Collection []) True initial_state) = []"
proof -
  have q: "getDocs (Collection []) (build_query initial_state True) = Inr []"
    by (simp add: getDocs_def run_query_empty)
  from fetch_result_shape[OF q] q show ?thesis by (simp add: ITEMS_PER_PAGE_def)
qed

theorem cursor_on_short_page_counterexample:
  "allDonations (fetchDonors (Collection [donation_A ''a'' 5]) True initial_state)
     = [donation_A ''a'' 5] \<and>
   lastVisible (fetchDonors (Collection [donation_A ''a'' 5]) True initial_state)
     = Some (donation_A ''a'' 5) \<and>
   \<not> hasMore (fetchDonors (Collection [donation_A ''a'' 5]) True initial_state)"
proof -
  have q: "getDocs (Collection [donation_A ''a'' 5]) (build_query initial_state True)
             = Inr [donation_A ''a'' 5]"
    by (simp add: getDocs_def build_query_def initial_state_def run_query_first
        store_sort_def sort_by_def ITEMS_PER_PAGE_def)
  from fetchDonors_fields[OF q] show ?thesis by (simp add: last_doc_def ITEMS_PER_PAGE_def)
qed

section \<open>Properties of the content sync\<close>

subsection \<open>The posts collection\<close>

lemma where_wp_id_set: "set (where_wp_id p st) = set (docs_for p st)"
  by (simp add: where_wp_id_def docs_for_def)

lemma where_wp_id_Nil: "(where_wp_id p st = []) = (docs_for p st = [])"
  using where_wp_id_set[of p st] by (metis set_empty)

lemma where_wp_id_hd:
  assumes "where_wp_id p st = (i, old) # rest"
  shows "(i, old) \<in> set (post_docs st)" and "wp_id old = p"
proof -
  have "(i, old) \<in> set (where_wp_id p st)" using assms by simp
  then have "(i, old) \<in> set (docs_for p st)" by (simp only: where_wp_id_set)
  then show "(i, old) \<in> set (post_docs st)" and "wp_id old = p"
    by (auto simp: docs_for_def)
qed

lemma docs_for_addDoc:
  "docs_for p (addDoc d st) = docs_for p st @ (if wp_id d = p then [(next_doc st, d)] else [])"
  by (simp add: docs_for_def addDoc_def)

lemma store_ok_addDoc: "store_ok st \<Longrightarrow> store_ok (addDoc d st)"
  unfolding store_ok_def addDoc_def list_all_iff by fastforce

lemma ids_updateDoc: "map fst (post_docs (updateDoc i d st)) = map fst (post_docs st)"
  by (simp add: updateDoc_def comp_def case_prod_beta)

lemma ids_below_iff: "list_all (\<lambda>(j, x). j < n) xs = (\<forall>j\<in>set (map fst xs). j < n)"
  by (induction xs) auto

lemma store_ok_updateDoc: "store_ok st \<Longrightarrow> store_ok (updateDoc i d st)"
proof -
  assume ok: "store_ok st"
  have n: "next_doc (updateDoc i d st) = next_doc st" by (simp add: updateDoc_def)
  have "distinct (map fst (post_docs (updateDoc i d st)))"
    using ok by (simp only: ids_updateDoc store_ok_def)
  moreover have "list_all (\<lambda>(j, x). j < next_doc (updateDoc i d st)) (post_docs (updateDoc i d st))"
    using ok unfolding store_ok_def ids_below_iff n ids_updateDoc by simp
  ultimately show ?thesis by (simp add: store_ok_def)
qed

lemma filter_map_same:
  assumes "\<And>x. x \<in> set xs \<Longrightarrow> P (f x) = P x \<and> fst (f x) = fst x"
  shows "map fst (filter P (map f xs)) = map fst (filter P xs)"
  using assms by (induction xs) auto

lemma ids_docs_for_updateDoc:
  assumes "store_ok st" "(i, old) \<in> set (post_docs st)" "wp_id d = wp_id old"
  shows "map fst (docs_for p (updateDoc i d st)) = map fst (docs_for p st)"
proof -
  let ?f = "\<lambda>(j, x). if j = i then (j, d) else (j, x)"
  let ?P = "\<lambda>(j, x). wp_id x = p"
  have "?P (?f y) = ?P y \<and> fst (?f y) = fst y" if "y \<in> set (post_docs st)" for y
  proof (cases y)
    case (Pair j x)
    show ?thesis
    proof (cases "j = i")
      case True
      have "distinct (map fst (post_docs st))" using assms(1) by (simp add: store_ok_def)
      then have "x = old" using that assms(2) Pair True by (metis eq_key_imp_eq_value)
      then show ?thesis using Pair True assms(3) by simp
    next
      case False
      then show ?thesis using Pair by simp
    qed
  qed
  then have "map fst (filter ?P (map ?f (post_docs st))) = map fst (filter ?P (post_docs st))"
    by (rule filter_map_same)
  then show ?thesis by (simp add: docs_for_def updateDoc_def)
qed

lemma sync_post_ok: "store_ok st \<Longrightarrow> store_ok (sync_post now post st)"
  by (simp add: sync_post_def store_ok_addDoc store_ok_updateDoc split: list.splits prod.splits)

lemma sync_post_ids:
  assumes "store_ok st"
  shows "map fst (docs_for p (sync_post now post st)) =
           (if p = post_id post \<and> docs_for p st = [] then [next_doc st]
            else map fst (docs_for p st))"
proof (cases "where_wp_id (post_id post) st")
  case Nil
  then have none: "docs_for (post_id post) st = []" by (simp add: where_wp_id_Nil)
  have "sync_post now post st = addDoc (postData now post) st"
    using Nil by (simp add: sync_post_def)
  then show ?thesis using none by (auto simp: docs_for_addDoc postData_def)
next
  case (Cons a rest)
  obtain i old where a: "a = (i, old)" by (cases a)
  note h = where_wp_id_hd[OF Cons[unfolded a]]
  have some: "docs_for (post_id post) st \<noteq> []"
    using Cons where_wp_id_Nil[of "post_id post" st] by simp
  have "sync_post now post st = updateDoc i (postData now post) st"
    using Cons a by (simp add: sync_post_def)
  moreover have "map fst (docs_for p (updateDoc i (postData now post) st)) = map fst (docs_for p st)"
    using h by (intro ids_docs_for_updateDoc[OF assms, where old = old]) (simp_all add: postData_def)
  ultimately show ?thesis using some by auto
qed

lemma sync_posts_ok: "store_ok st \<Longrightarrow> store_ok (sync_posts clock k posts st)"
  by (induction posts arbitrary: st k) (simp_all add: sync_post_ok)

lemma sync_posts_in_place:
  assumes "store_ok st" "docs_for p st \<noteq> []"
  shows "map fst (docs_for p (sync_posts clock k posts st)) = map fst (docs_for p st)"
  using assms
proof (induction posts arbitrary: st k)
  case Nil
  show ?case by simp
next
  case (Cons post posts)
  let ?st1 = "sync_post (clock k) post st"
  have ids1: "map fst (docs_for p ?st1) = map fst (docs_for p st)"
    using sync_post_ids[OF Cons.prems(1), of p "clock k" post] Cons.prems(2) by simp
  then have ne1: "docs_for p ?st1 \<noteq> []" using Cons.prems(2) by (metis map_is_Nil_conv)
  have "map fst (docs_for p (sync_posts clock (Suc k) posts ?st1)) = map fst (docs_for p ?st1)"
    by (rule Cons.IH[OF sync_post_ok[OF Cons.prems(1)] ne1])
  then show ?case using ids1 by simp
qed

lemma sync_posts_creates_one:
  assumes "store_ok st" "docs_for p st = []" "p \<in> set (map post_id posts)"
  shows "length (docs_for p (sync_posts clock k posts st)) = 1"
  using assms
proof (induction posts arbitrary: st k)
  case Nil
  then show ?case by simp
next
  case (Cons post posts)
  let ?st1 = "sync_post (clock k) post st"
  have ok1: "store_ok ?st1" by (rule sync_post_ok[OF Cons.prems(1)])
  show ?case
  proof (cases "post_id post = p")
    case True
    then have ids1: "map fst (docs_for p ?st1) = [next_doc st]"
      using sync_post_ids[OF Cons.prems(1), of p "clock k" post] Cons.prems(2) by simp
    then have ne1: "docs_for p ?st1 \<noteq> []" by auto
    have "map fst (docs_for p (sync_posts clock (Suc k) posts ?st1)) = [next_doc st]"
      using sync_posts_in_place[OF ok1 ne1, of clock "Suc k" posts] ids1 by simp
    then have "length (map fst (docs_for p (sync_posts clock (Suc k) posts ?st1))) = 1" by simp
    then show ?thesis by simp
  next
    case False
    then have "map fst (docs_for p ?st1) = []"
      using sync_post_ids[OF Cons.prems(1), of p "clock k" post] Cons.prems(2) by simp
    then have none1: "docs_for p ?st1 = []" by simp
    have "p \<in> set (map post_id posts)" using Cons.prems(3) False by auto
    from Cons.IH[OF ok1 none1 this] show ?thesis by simp
  qed
qed

lemma sync_posts_count:
  assumes "store_ok st" "p \<in> set (map post_id posts)"
  shows "length (docs_for p (sync_posts clock k posts st)) = max 1 (length (docs_for p st))"
proof (cases "docs_for p st = []")
  case True
  then show ?thesis using sync_posts_creates_one[OF assms(1) True assms(2)] by simp
next
  case False
  have "length (map fst (docs_for p (sync_posts clock k posts st))) = length (map fst (docs_for p st))"
    using sync_posts_in_place[OF assms(1) False, of clock k posts] by simp
  moreover have "1 \<le> length (docs_for p st)" using False by (cases "docs_for p st") simp_all
  ultimately show ?thesis by simp
qed

lemma filter_map_commute:
  assumes "\<And>x. x \<in> set xs \<Longrightarrow> P (f x) = P x"
  shows "filter P (map f xs) = map f (filter P xs)"
  using assms by (induction xs) auto

lemma docs_for_updateDoc:
  assumes "store_ok st" "(i, old) \<in> set (post_docs st)" "wp_id d = wp_id old"
  shows "docs_for p (updateDoc i d st) =
           map (\<lambda>(j, x). if j = i then (j, d) else (j, x)) (docs_for p st)"
proof -
  let ?f = "\<lambda>(j, x). if j = i then (j, d) else (j, x)"
  let ?P = "\<lambda>(j, x). wp_id x = p"
  have "?P (?f y) = ?P y" if "y \<in> set (post_docs st)" for y
  proof (cases y)
    case (Pair j x)
    show ?thesis
    proof (cases "j = i")
      case True
      have "distinct (map fst (post_docs st))" using assms(1) by (simp add: store_ok_def)
      then have "x = old" using that assms(2) Pair True by (metis eq_key_imp_eq_value)
      then show ?thesis using Pair True assms(3) by simp
    next
      case False
      then show ?thesis using Pair by simp
    qed
  qed
  then have "filter ?P (map ?f (post_docs st)) = map ?f (filter ?P (post_docs st))"
    by (rule filter_map_commute)
  then show ?thesis by (simp add: docs_for_def updateDoc_def)
qed

lemma sync_post_data:
  assumes "store_ok st" "length (docs_for p st) \<le> 1"
  shows "map snd (docs_for p (sync_post now post st)) =
           (if post_id post = p then [postData now post] else map snd (docs_for p st))"
proof (cases "where_wp_id (post_id post) st")
  case Nil
  then have none: "docs_for (post_id post) st = []" by (simp add: where_wp_id_Nil)
  have "sync_post now post st = addDoc (postData now post) st"
    using Nil by (simp add: sync_post_def)
  then show ?thesis using none by (auto simp: docs_for_addDoc postData_def)
next
  case (Cons a rest)
  obtain i old where a: "a = (i, old)" by (cases a)
  note h = where_wp_id_hd[OF Cons[unfolded a]]
  let ?f = "\<lambda>(j, x). if j = i then (j, postData now post) else (j, x)"
  have step: "sync_post now post st = updateDoc i (postData now post) st"
    using Cons a by (simp add: sync_post_def)
  have upd: "docs_for p (updateDoc i (postData now post) st) = map ?f (docs_for p st)"
    using h by (intro docs_for_updateDoc[OF assms(1), where old = old]) (simp_all add: postData_def)
  have dist: "distinct (map fst (post_docs st))" using assms(1) by (simp add: store_ok_def)
  show ?thesis
  proof (cases "post_id post = p")
    case True
    then have "(i, old) \<in> set (docs_for p st)" using h by (simp add: docs_for_def)
    then have "docs_for p st = [(i, old)]"
      using assms(2) by (cases "docs_for p st") auto
    then show ?thesis using step upd True by simp
  next
    case False
    have "?f y = y" if "y \<in> set (docs_for p st)" for y
    proof (cases y)
      case (Pair j x)
      then have in_docs: "(j, x) \<in> set (post_docs st)" and wp: "wp_id x = p"
        using that by (auto simp: docs_for_def)
      have "j \<noteq> i"
      proof
        assume "j = i"
        then have "x = old" using dist in_docs h(1) by (metis eq_key_imp_eq_value)
        then show False using wp h(2) False by simp
      qed
      then show ?thesis using Pair by simp
    qed
    then have "map ?f (docs_for p st) = docs_for p st" by (simp add: map_idI)
    then show ?thesis using step upd False by simp
  qed
qed

lemma sync_posts_untouched:
  assumes "store_ok st" "length (docs_for p st) \<le> 1" "p \<notin> set (map post_id posts)"
  shows "map snd (docs_for p (sync_posts clock k posts st)) = map snd (docs_for p st)"
  using assms
proof (induction posts arbitrary: st k)
  case Nil
  show ?case by simp
next
  case (Cons post posts)
  let ?st1 = "sync_post (clock k) post st"
  have ok1: "store_ok ?st1" by (rule sync_post_ok[OF Cons.prems(1)])
  have other: "post_id post \<noteq> p" and rest: "p \<notin> set (map post_id posts)"
    using Cons.prems(3) by auto
  have data1: "map snd (docs_for p ?st1) = map snd (docs_for p st)"
    using sync_post_data[OF Cons.prems(1,2), of "clock k" post] other by simp
  then have "length (map snd (docs_for p ?st1)) \<le> 1" using Cons.prems(2) by simp
  then have le1: "length (docs_for p ?st1) \<le> 1" by simp
  from Cons.IH[OF ok1 le1 rest] data1 show ?case by simp
qed

lemma sync_posts_data:
  assumes "store_ok st" "length (docs_for p st) \<le> 1" "p \<in> set (map post_id posts)"
  shows "\<exists>j. map snd (docs_for p (sync_posts clock k posts st))
           = [postData (clock j) (last (filter (\<lambda>q. post_id q = p) posts))]"
  using assms
proof (induction posts arbitrary: st k)
  case Nil
  then show ?case by simp
next
  case (Cons post posts)
  let ?st1 = "sync_post (clock k) post st"
  have ok1: "store_ok ?st1" by (rule sync_post_ok[OF Cons.prems(1)])
  have data1: "map snd (docs_for p ?st1) =
      (if post_id post = p then [postData (clock k) post] else map snd (docs_for p st))"
    by (rule sync_post_data[OF Cons.prems(1,2)])
  have "length (map snd (docs_for p ?st1)) \<le> 1"
    unfolding data1 using Cons.prems(2) by simp
  then have le1: "length (docs_for p ?st1) \<le> 1" by simp
  show ?case
  proof (cases "p \<in> set (map post_id posts)")
    case True
    then have "filter (\<lambda>q. post_id q = p) posts \<noteq> []" by (auto simp: filter_empty_conv)
    then show ?thesis using Cons.IH[OF ok1 le1 True, of "Suc k"] by simp
  next
    case False
    then have here: "post_id post = p" using Cons.prems(3) by auto
    have none: "filter (\<lambda>q. post_id q = p) posts = []" using False by (auto simp: filter_empty_conv)
    have "map snd (docs_for p (sync_posts clock (Suc k) posts ?st1)) = map snd (docs_for p ?st1)"
      by (rule sync_posts_untouched[OF ok1 le1 False])
    then have "map snd (docs_for p (sync_posts clock k (post # posts) st))
                 = [postData (clock k) (last (filter (\<lambda>q. post_id q = p) (post # posts)))]"
      using data1 here none by simp
    then show ?thesis by (rule exI[of _ k])
  qed
qed

text \<open>
  C9. Starting from a collection that holds at most one document for post id \<open>p\<close>,
  two runs of the sync whose responses both contain the post leave exactly one
  document for \<open>p\<close> after the first run and after the second; the second run creates
  none: it writes to the document the first run left (same document id), which then
  holds the data of the second response.
\<close>

theorem sync_twice_one_document:
  assumes "store_ok st" "length (docs_for p st) \<le> 1"
    "p \<in> set (map post_id posts1)" "p \<in> set (map post_id posts2)"
  shows "length (docs_for p (snd (syncWordPressData (Some posts1) clock1 st))) = 1 \<and>
         length (docs_for p (snd (syncWordPressData (Some posts2) clock2
                   (snd (syncWordPressData (Some posts1) clock1 st))))) = 1 \<and>
         map fst (docs_for p (snd (syncWordPressData (Some posts2) clock2
                   (snd (syncWordPressData (Some posts1) clock1 st)))))
           = map fst (docs_for p (snd (syncWordPressData (Some posts1) clock1 st))) \<and>
         (\<exists>j. map snd (docs_for p (snd (syncWordPressData (Some posts2) clock2
                   (snd (syncWordPressData (Some posts1) clock1 st)))))
           = [postData (clock2 j) (last (filter (\<lambda>q. post_id q = p) posts2))])"
proof -
  let ?st1 = "sync_posts clock1 0 posts1 st"
  let ?st2 = "sync_posts clock2 0 posts2 ?st1"
  have ok1: "store_ok ?st1" by (rule sync_posts_ok[OF assms(1)])
  have one1: "length (docs_for p ?st1) = 1"
    using sync_posts_count[OF assms(1,3), of clock1 0] assms(2) by simp
  then have ne1: "docs_for p ?st1 \<noteq> []" by auto
  have le1: "length (docs_for p ?st1) \<le> 1" using one1 by simp
  have same: "map fst (docs_for p ?st2) = map fst (docs_for p ?st1)"
    by (rule sync_posts_in_place[OF ok1 ne1])
  then have "length (map fst (docs_for p ?st2)) = length (map fst (docs_for p ?st1))" by simp
  then have one2: "length (docs_for p ?st2) = 1" using one1 by simp
  have data: "\<exists>j. map snd (docs_for p ?st2)
                 = [postData (clock2 j) (last (filter (\<lambda>q. post_id q = p) posts2))]"
    by (rule sync_posts_data[OF ok1 le1 assms(4)])
  show ?thesis using one1 one2 same data by (simp add: syncWordPressData_def)
qed

theorem sync_twice_one_document_witness:
  "store_ok \<lparr>next_doc = 0, post_docs = []\<rparr> \<and>
   length (docs_for 7 \<lparr>next_doc = 0, post_docs = []\<rparr>) \<le> 1 \<and>
   7 \<in> set (map post_id [post7]) \<and>
   docs_for 7 (snd (syncWordPressData (Some [post7]) (\<lambda>k. ''t2'')
        (snd (syncWordPressData (Some [post7]) (\<lambda>k. ''t1'') \<lparr>next_doc = 0, post_docs = []\<rparr>))))
     = [(0, postData ''t2'' post7)]"
proof -
  let ?st = "\<lparr>next_doc = 0, post_docs = []\<rparr>"
  have a: "store_ok ?st" by (simp add: store_ok_def)
  have b: "length (docs_for 7 ?st) \<le> 1" by (simp add: docs_for_def)
  have c: "7 \<in> set (map post_id [post7])" by (simp add: post7_def)
  have run: "docs_for 7 (snd (syncWordPressData (Some [post7]) (\<lambda>k. ''t2'')
        (snd (syncWordPressData (Some [post7]) (\<lambda>k. ''t1'') ?st))))
     = [(0, postData ''t2'' post7)]"
    by code_simp
  from sync_twice_one_document[OF a b c c, of "\<lambda>k. ''t1''" "\<lambda>k. ''t2''"] a b c run
  show ?thesis by blast
qed

section \<open>Properties of the donation form\<close>

subsection \<open>Reading the amount\<close>

lemma of_char_digit: "is_digit c \<Longrightarrow> (48::int) \<le> of_char c"
proof -
  assume "is_digit c"
  then have "(48::nat) \<le> of_char c" by (simp add: is_digit_def less_eq_char_def)
  moreover have "(of_char c :: int) = int (of_char c)" by (simp add: of_nat_of_char)
  ultimately show ?thesis by linarith
qed

lemma hex_digit_value_nonneg: "is_hex_digit c \<Longrightarrow> 0 \<le> hex_digit_value c"
proof -
  assume h: "is_hex_digit c"
  have a: "(97::int) \<le> of_char c" if "CHR ''a'' \<le> c"
  proof -
    from that have "(97::nat) \<le> of_char c" by (simp add: less_eq_char_def)
    moreover have "(of_char c :: int) = int (of_char c)" by (simp add: of_nat_of_char)
    ultimately show ?thesis by linarith
  qed
  have b: "(65::int) \<le> of_char c" if "CHR ''A'' \<le> c"
  proof -
    from that have "(65::nat) \<le> of_char c" by (simp add: less_eq_char_def)
    moreover have "(of_char c :: int) = int (of_char c)" by (simp add: of_nat_of_char)
    ultimately show ?thesis by linarith
  qed
  show ?thesis using h of_char_digit[of c] a b
    by (auto simp: hex_digit_value_def is_hex_digit_def)
qed

lemma foldl_digits_nonneg:
  "list_all is_digit ds \<Longrightarrow> 0 \<le> a \<Longrightarrow> 0 \<le> foldl (\<lambda>a c. 10 * a + (of_char c - 48)) (a::int) ds"
proof (induction ds arbitrary: a)
  case Nil
  then show ?case by simp
next
  case (Cons c ds)
  have "0 \<le> 10 * a + (of_char c - 48)" using Cons.prems of_char_digit[of c] by simp
  then show ?case using Cons by simp
qed

lemma foldl_hex_nonneg:
  "list_all is_hex_digit ds \<Longrightarrow> 0 \<le> a \<Longrightarrow> 0 \<le> foldl (\<lambda>a c. 16 * a + hex_digit_value c) (a::int) ds"
proof (induction ds arbitrary: a)
  case Nil
  then show ?case by simp
next
  case (Cons c ds)
  have "0 \<le> 16 * a + hex_digit_value c" using Cons.prems hex_digit_value_nonneg[of c] by simp
  then show ?case using Cons by simp
qed

lemma digits_value_nonneg: "0 \<le> digits_value (takeWhile is_digit s)"
  unfolding digits_value_def
  by (rule foldl_digits_nonneg) (simp_all add: list_all_iff, meson set_takeWhileD)

lemma hex_value_nonneg: "0 \<le> hex_value (takeWhile is_hex_digit s)"
  unfolding hex_value_def
  by (rule foldl_hex_nonneg) (simp_all add: list_all_iff, meson set_takeWhileD)

text \<open>\<open>parseInt\<close> gives a negative number only for a text that begins with a minus sign.\<close>

lemma parseInt_negative:
  assumes "is_negative (parseInt s)"
  shows "dropWhile is_space s \<noteq> [] \<and> hd (dropWhile is_space s) = CHR ''-''"
proof -
  define s1 where "s1 = dropWhile is_space s"
  define neg where "neg = (s1 \<noteq> [] \<and> hd s1 = CHR ''-'')"
  define s2 where "s2 = (if s1 \<noteq> [] \<and> (hd s1 = CHR ''-'' \<or> hd s1 = CHR ''+'') then tl s1 else s1)"
  define hex where "hex = (length s2 \<ge> 2 \<and> hd s2 = CHR ''0'' \<and>
                            (hd (tl s2) = CHR ''x'' \<or> hd (tl s2) = CHR ''X''))"
  define ds where "ds = (if hex then takeWhile is_hex_digit (drop 2 s2) else takeWhile is_digit s2)"
  define v where "v = (if hex then hex_value ds else digits_value ds)"
  have p: "parseInt s = (if ds = [] then NaN else to_double (if neg then - v else v))"
    unfolding parseInt_def Let_def v_def ds_def hex_def s2_def neg_def s1_def by (rule refl)
  have v0: "0 \<le> v"
    unfolding v_def ds_def using digits_value_nonneg hex_value_nonneg by (cases hex) simp_all
  have "(if neg then - v else v) < 0"
    using assms unfolding p by (cases "ds = []") (simp_all add: is_negative_to_double)
  then have neg using v0 by (cases neg) simp_all
  then show ?thesis by (simp add: neg_def s1_def)
qed

lemma written_amount_handleSubmit: "written_amount (handleSubmit i f) = parseInt (form_amount f)"
  by (simp add: handleSubmit_def Let_def split: option.splits)

lemma negative_amount_needs_minus:
  assumes "is_negative (written_amount (handleSubmit i f))"
  shows "dropWhile is_space (form_amount f) \<noteq> [] \<and>
         hd (dropWhile is_space (form_amount f)) = CHR ''-''"
  using assms parseInt_negative by (simp add: written_amount_handleSubmit)

text \<open>The amount is read as a double: an integer of more than 53 bits is rounded.\<close>

lemma parseInt_rounds: "parseInt ''9007199254740993'' = Number 9007199254740992"
  by code_simp

text \<open>A text whose first character is the decimal point has no integer digits.\<close>

lemma dot_not_space: "\<not> is_space (CHR ''.'')"
  by (simp add: is_space_def less_eq_char_def)

lemma dot_not_digit: "\<not> is_digit (CHR ''.'')"
  by (simp add: is_digit_def less_eq_char_def)

lemma parseInt_leading_dot: "parseInt (CHR ''.'' # r) = NaN"
  by (simp add: parseInt_def Let_def dot_not_space dot_not_digit)

text \<open>
  C8. The only validation of the amount is declarative: the amount input is a number
  input with \<open>min="1"\<close>, and the browser dispatches the submit event only for a value
  that is a number not below the minimum. A value beginning with a minus sign is below
  it, so the submission is blocked before \<open>handleSubmit\<close> runs, and \<open>handleSubmit\<close> writes
  a negative amount for no other text (lemma \<open>negative_amount_needs_minus\<close>). The
  invariant \<open>amount >= 0\<close> of the stored donations is broken all the same. The text
  \<open>.5e1\<close> is a valid value of the number input, the number 5, a whole number not below
  the minimum, so the submit event is dispatched; \<open>handleSubmit\<close> then reads the text
  with \<open>parseInt\<close>, which finds no digit before the point, and the amount it writes, in
  a create and in an update alike, is \<open>NaN\<close>. (The budget of \<open>ActivityForm\<close> is read
  from the same kind of input with \<open>parseFloat\<close>, which reads 5.)
\<close>

theorem amount_without_integer_digits_writes_NaN:
  "handleSubmit None (example_form ''.5e1'')
     = AddDonation \<lparr>data_donor = ''Asha'', data_amount = NaN,
                     data_purpose = ''Education'', data_notes = None\<rparr> \<and>
   handleSubmit (Some ''d7'') (example_form ''.5e1'')
     = UpdateDonation ''d7'' \<lparr>data_donor = ''Asha'', data_amount = NaN,
                              data_purpose = ''Education'', data_notes = None\<rparr>"
  by code_simp

end
